theory Spec2Isabelle
  imports Complex_Main
begin

section \<open>Constants of \<^verbatim>\<open>confirmation_rule.py\<close>\<close>

text \<open>
  The module reads two values from the external package \<^verbatim>\<open>eth2spec.capella.mainnet\<close>:
  \<^verbatim>\<open>SLOTS_PER_EPOCH = int(spec.SLOTS_PER_EPOCH)\<close> and
  \<^verbatim>\<open>SLOT_LEN = int(spec.config.SECONDS_PER_SLOT)\<close>. The mainnet preset fixes them to 32 and
  12 (\<^verbatim>\<open>analyze_data.py\<close> uses the same 12 seconds per slot). Python integers are
  unbounded, so every integer of the program is an \<^typ>\<open>int\<close>.
\<close>

definition VALIDATOR_BALANCE :: int where
  "VALIDATOR_BALANCE = 32 * 10 ^ 9"

definition PROPOSER_SCORE_BOOST :: int where
  "PROPOSER_SCORE_BOOST = 40"

definition SLOTS_PER_EPOCH :: int where
  "SLOTS_PER_EPOCH = 32"

definition SLOT_LEN :: int where
  "SLOT_LEN = 12"

definition COMMITTEE_WEIGHT_ESTIMATION_ADJUSTMENT_FACTOR :: int where
  "COMMITTEE_WEIGHT_ESTIMATION_ADJUSTMENT_FACTOR = 5"

text \<open>
  \<^verbatim>\<open>spec.compute_epoch_at_slot(slot)\<close> of the external package is
  \<^verbatim>\<open>Epoch(slot // SLOTS_PER_EPOCH)\<close>. Python's \<^verbatim>\<open>//\<close> and \<^verbatim>\<open>%\<close> on integers
  round towards minus infinity, as \<open>div\<close> and \<open>mod\<close> on \<^typ>\<open>int\<close> do. The range checks of
  the package's unsigned 64-bit epoch type are outside this development.
\<close>

definition compute_epoch_at_slot :: "int \<Rightarrow> int" where
  "compute_epoch_at_slot slot = slot div SLOTS_PER_EPOCH"


section \<open>Snapshots and engine state\<close>

text \<open>
  A snapshot is the dictionary \<^verbatim>\<open>conf_info\<close> read from one JSON file. Block roots are
  strings. \<^verbatim>\<open>conf_info["nodes"]\<close> is a Python dict, which keeps insertion order: it is the
  list of its items, in that order, with pairwise different keys; a key is looked up with
  \<^const>\<open>map_of\<close>. The values that the program passes through \<^verbatim>\<open>int(...)\<close> are integers
  here. The entry \<^verbatim>\<open>head_root\<close> of the dictionary is never read by the rule.
\<close>

type_synonym root = string

record node =
  n_block_root :: root
  n_slot :: int
  n_parent_root :: root
  n_weight :: int

record conf_info =
  ci_current_slot :: int
  ci_current_time_in_slot :: int
  ci_nodes :: "(root \<times> node) list"
  ci_justified_checkpoint_root :: root
  ci_finalized_checkpoint_root :: root
  ci_committee_size :: int

text \<open>
  The two thresholds come from \<^verbatim>\<open>float(...)\<close> of the command line; \<^verbatim>\<open>PROPOSER_SCORE_BOOST / 100\<close>
  and \<^verbatim>\<open>2 / 3\<close> are Python true divisions. These fractional quantities are rational
  numbers here: the arithmetic on them is exact, the rounding of binary floating point is
  not part of the model.

  The logger is the sink for diagnostic events. Only the \<^verbatim>\<open>warning\<close> and \<^verbatim>\<open>error\<close>
  calls are recorded (field \<open>logged\<close>); \<^verbatim>\<open>debug\<close> calls are left out.
\<close>

datatype log_event =
  ConfirmationHeadGoesBackwards int int
  | ConfirmedBlockIsForked

record ConfRule =
  confirmation_byzantine_threshold :: rat
  confirmation_slashing_threshold :: rat
  logged :: "log_event list"
  empty_or_forked_slots :: "int list"
  confirmed_head_root :: "root option"
  confirmed_head_slot :: int
  ffg_confirmed_checkpoint :: "root option"
  current_slot :: int
  time_in_current_slot :: int
  times_from_confirmed_head :: "int list"
  conf_times :: "int list"
  processed_slots :: "int set"

definition init_ConfRule :: "rat \<Rightarrow> rat \<Rightarrow> ConfRule" where
  "init_ConfRule byzantine_threshold slashing_threshold =
     \<lparr> confirmation_byzantine_threshold = byzantine_threshold,
       confirmation_slashing_threshold = slashing_threshold,
       logged = [],
       empty_or_forked_slots = [],
       confirmed_head_root = None,
       confirmed_head_slot = 0,
       ffg_confirmed_checkpoint = None,
       current_slot = 0,
       time_in_current_slot = 0,
       times_from_confirmed_head = [],
       conf_times = [],
       processed_slots = {} \<rparr>"

text \<open>
  Exceptions are values. The two \<^verbatim>\<open>assert\<close> statements of the module both raise Python's
  \<^verbatim>\<open>AssertionError\<close>; they are told apart by the place that raises.
\<close>

datatype error =
  OrderingAssertion   \<comment> \<open>\<^verbatim>\<open>assert self.current_slot <= int(conf_info["current_slot"])\<close>\<close>
  | EpochAssertion    \<comment> \<open>\<^verbatim>\<open>assert block_epoch == current_epoch\<close>\<close>
  | KeyError          \<comment> \<open>a root that is not a key of \<^verbatim>\<open>nodes\<close>\<close>
  | IndexError        \<comment> \<open>\<^verbatim>\<open>sorted_nodes[-1]\<close> on an empty dict\<close>


section \<open>Weight estimator\<close>

definition is_full_validator_set_covered :: "int \<Rightarrow> int \<Rightarrow> bool" where
  "is_full_validator_set_covered start_slot end_slot =
     (let start_epoch = compute_epoch_at_slot start_slot;
          end_epoch = compute_epoch_at_slot end_slot;
          at_boundary = (start_slot mod SLOTS_PER_EPOCH = 0
                         \<or> (end_slot + 1) mod SLOTS_PER_EPOCH = 0)
      in end_epoch > start_epoch + 1
         \<or> (at_boundary \<and> start_slot + SLOTS_PER_EPOCH - 1 \<le> end_slot))"

text \<open>
  \<^verbatim>\<open>__ceil_div\<close> is only ever called with the divisors \<^verbatim>\<open>SLOTS_PER_EPOCH\<close> and 1000, so
  Python's \<^verbatim>\<open>ZeroDivisionError\<close> cannot occur.
\<close>

definition ceil_div :: "int \<Rightarrow> int \<Rightarrow> int" where
  "ceil_div numerator denominator =
     (if numerator mod denominator = 0 then numerator div denominator
      else numerator div denominator + 1)"

definition adjust_committee_weight_estimate_to_ensure_safety :: "int \<Rightarrow> int" where
  "adjust_committee_weight_estimate_to_ensure_safety estimate =
     ceil_div (estimate * (1000 + COMMITTEE_WEIGHT_ESTIMATION_ADJUSTMENT_FACTOR)) 1000"

definition get_total_active_balance :: "conf_info \<Rightarrow> int" where
  "get_total_active_balance ci = SLOTS_PER_EPOCH * ci_committee_size ci * VALIDATOR_BALANCE"

definition get_committee_weight_between_slots :: "conf_info \<Rightarrow> int \<Rightarrow> int \<Rightarrow> int" where
  "get_committee_weight_between_slots ci start_slot end_slot =
     (let total_active_balance = get_total_active_balance ci;
          start_epoch = compute_epoch_at_slot start_slot;
          end_epoch = compute_epoch_at_slot end_slot
      in if start_slot > end_slot then 0
         else if is_full_validator_set_covered start_slot end_slot then total_active_balance
         else if start_epoch = end_epoch then
           ceil_div ((end_slot - start_slot + 1) * total_active_balance) SLOTS_PER_EPOCH
         else
           (let num_slots_in_end_epoch = end_slot mod SLOTS_PER_EPOCH + 1;
                remaining_slots_in_end_epoch = SLOTS_PER_EPOCH - num_slots_in_end_epoch;
                num_slots_in_start_epoch = SLOTS_PER_EPOCH - start_slot mod SLOTS_PER_EPOCH;
                end_epoch_weight_mul_by_slots_per_epoch =
                  num_slots_in_end_epoch * total_active_balance;
                start_epoch_weight_mul_by_slots_per_epoch =
                  ceil_div (num_slots_in_start_epoch * remaining_slots_in_end_epoch
                              * total_active_balance) SLOTS_PER_EPOCH
            in adjust_committee_weight_estimate_to_ensure_safety
                 (ceil_div (start_epoch_weight_mul_by_slots_per_epoch
                              + end_epoch_weight_mul_by_slots_per_epoch) SLOTS_PER_EPOCH)))"

text \<open>The remaining weight reads \<^verbatim>\<open>self.current_slot\<close>, the engine's slot.\<close>

definition get_remaining_weight_in_epoch :: "ConfRule \<Rightarrow> conf_info \<Rightarrow> int" where
  "get_remaining_weight_in_epoch st ci =
     (let remaining_slots_in_epoch = SLOTS_PER_EPOCH - current_slot st mod SLOTS_PER_EPOCH - 1
      in remaining_slots_in_epoch * ci_committee_size ci * VALIDATOR_BALANCE)"


section \<open>Results of calls that may fail or run forever\<close>

text \<open>
  A call that reads the engine only yields \<open>Some (Inr v)\<close> when it returns \<open>v\<close>,
  \<open>Some (Inl e)\<close> when it raises \<open>e\<close>, and \<open>None\<close> when it does not return (a parent
  chain that runs in a cycle). A call that writes the engine also yields the engine as the
  call leaves it, whether it returned or raised. The interpreter's recursion limit is not
  modelled.
\<close>

definition read_only :: "ConfRule \<Rightarrow> (error + 'a) option
    \<Rightarrow> ('a \<Rightarrow> ((error + 'b) \<times> ConfRule) option) \<Rightarrow> ((error + 'b) \<times> ConfRule) option" where
  "read_only st m f =
     (case m of None \<Rightarrow> None | Some (Inl e) \<Rightarrow> Some (Inl e, st) | Some (Inr v) \<Rightarrow> f v)"


section \<open>LMD safety\<close>

text \<open>
  The expression \<^verbatim>\<open>(PROPOSER_SCORE_BOOST / 100) * self.__ceil_div(total_active_balance, SLOTS_PER_EPOCH)\<close>
  occurs twice in the source, as \<^verbatim>\<open>proposer_score\<close> and as \<^verbatim>\<open>proposer_boost_weight\<close>.
\<close>

definition proposer_boost_weight :: "conf_info \<Rightarrow> rat" where
  "proposer_boost_weight ci =
     (of_int PROPOSER_SCORE_BOOST / 100)
       * of_int (ceil_div (get_total_active_balance ci) SLOTS_PER_EPOCH)"

text \<open>The two sides of the comparison \<^verbatim>\<open>100 * support_without_proposer_boost > ...\<close>.\<close>

definition one_lmd_sides :: "ConfRule \<Rightarrow> conf_info \<Rightarrow> int \<Rightarrow> int \<Rightarrow> rat \<times> rat" where
  "one_lmd_sides st ci support maximum_support =
     (let proposer_score = proposer_boost_weight ci;
          support_without_proposer_boost = of_int support - proposer_score
      in (100 * support_without_proposer_boost,
          50 * of_int maximum_support + 50 * proposer_score
            + confirmation_byzantine_threshold st * 100 * of_int maximum_support))"

definition is_one_lmd_confirmed :: "ConfRule \<Rightarrow> conf_info \<Rightarrow> root \<Rightarrow> error + bool" where
  "is_one_lmd_confirmed st ci block_root =
     (case map_of (ci_nodes ci) block_root of
        None \<Rightarrow> Inl KeyError
      | Some node \<Rightarrow>
          (let support = n_weight node;
               parent_root = n_parent_root node
           in case map_of (ci_nodes ci) parent_root of
                None \<Rightarrow> Inl KeyError
              | Some parent \<Rightarrow>
                  (let parent_slot = n_slot parent;
                       maximum_support =
                         get_committee_weight_between_slots ci (parent_slot + 1) (current_slot st);
                       sides = one_lmd_sides st ci support maximum_support
                   in Inr (fst sides > snd sides))))"

partial_function (option) is_lmd_confirmed ::
    "ConfRule \<Rightarrow> conf_info \<Rightarrow> root \<Rightarrow> (error + bool) option" where
  "is_lmd_confirmed st ci block_root =
     (case map_of (ci_nodes ci) block_root of
        None \<Rightarrow> Some (Inl KeyError)
      | Some node \<Rightarrow>
          if ci_finalized_checkpoint_root ci = block_root
             \<or> confirmed_head_root st = Some block_root
          then Some (Inr True)
          else (case is_one_lmd_confirmed st ci block_root of
                  Inl e \<Rightarrow> Some (Inl e)
                | Inr one_confirmed \<Rightarrow>
                    if one_confirmed then is_lmd_confirmed st ci (n_parent_root node)
                    else Some (Inr False)))"


section \<open>FFG safety\<close>

text \<open>
  \<^verbatim>\<open>__get_ancestor\<close> looks \<^verbatim>\<open>block_root\<close> up and then, while the node's slot is above the
  requested slot, looks the parent up: every pass through the equation below is one lookup
  followed by the loop test. It returns the node's own \<^verbatim>\<open>block_root\<close> entry.
\<close>

partial_function (option) get_ancestor ::
    "root \<Rightarrow> int \<Rightarrow> conf_info \<Rightarrow> (error + root) option" where
  "get_ancestor block_root slot ci =
     (case map_of (ci_nodes ci) block_root of
        None \<Rightarrow> Some (Inl KeyError)
      | Some node \<Rightarrow>
          if n_slot node > slot then get_ancestor (n_parent_root node) slot ci
          else Some (Inr (n_block_root node)))"

definition get_checkpoint_block :: "root \<Rightarrow> conf_info \<Rightarrow> int \<Rightarrow> (error + root) option" where
  "get_checkpoint_block block_root ci block_epoch =
     (let checkpoint_slot = block_epoch * SLOTS_PER_EPOCH
      in get_ancestor block_root checkpoint_slot ci)"

definition get_checkpoint_ffg_support ::
    "root \<Rightarrow> conf_info \<Rightarrow> int \<Rightarrow> (error + root \<times> rat) option" where
  "get_checkpoint_ffg_support block_root ci block_epoch =
     (case get_checkpoint_block block_root ci block_epoch of
        None \<Rightarrow> None
      | Some (Inl e) \<Rightarrow> Some (Inl e)
      | Some (Inr checkpoint_root) \<Rightarrow>
          (case map_of (ci_nodes ci) checkpoint_root of
             None \<Rightarrow> Some (Inl KeyError)
           | Some node \<Rightarrow>
               (let ffg_support = of_int (n_weight node) - proposer_boost_weight ci
                in Some (Inr (checkpoint_root, ffg_support)))))"

text \<open>The two sides of the comparison \<^verbatim>\<open>(2 / 3) * total_validators_weight <= ...\<close>.\<close>

definition ffg_sides :: "ConfRule \<Rightarrow> conf_info \<Rightarrow> rat \<Rightarrow> rat \<times> rat" where
  "ffg_sides st ci checkpoint_ffg_support =
     (let total_validators_weight = get_total_active_balance ci;
          remaining_weight_in_epoch = get_remaining_weight_in_epoch st ci;
          max_adversarial_ffg_support =
            min (confirmation_byzantine_threshold st
                   * of_int (total_validators_weight - remaining_weight_in_epoch))
                (min (confirmation_slashing_threshold st * of_int total_validators_weight)
                     checkpoint_ffg_support)
      in ((2 / 3) * of_int total_validators_weight,
          checkpoint_ffg_support - max_adversarial_ffg_support
            + (1 - confirmation_byzantine_threshold st) * of_int remaining_weight_in_epoch))"

definition is_ffg_confirmed ::
    "ConfRule \<Rightarrow> conf_info \<Rightarrow> root \<Rightarrow> ((error + bool) \<times> ConfRule) option" where
  "is_ffg_confirmed st ci block_root =
     (case map_of (ci_nodes ci) block_root of
        None \<Rightarrow> Some (Inl KeyError, st)
      | Some node \<Rightarrow>
          (let block_slot = n_slot node;
               block_epoch = compute_epoch_at_slot block_slot;
               current_epoch = compute_epoch_at_slot (current_slot st)
           in if block_epoch \<noteq> current_epoch then Some (Inl EpochAssertion, st)
              else read_only st (get_checkpoint_ffg_support block_root ci block_epoch)
                (\<lambda>(checkpoint_root, checkpoint_ffg_support).
                   (let sides = ffg_sides st ci checkpoint_ffg_support;
                        is_confirmed = (fst sides \<le> snd sides)
                    in Some (Inr is_confirmed,
                         if is_confirmed \<and> (current_slot st + 1) mod SLOTS_PER_EPOCH = 0
                         then st\<lparr>ffg_confirmed_checkpoint := Some checkpoint_root\<rparr>
                         else st)))))"


section \<open>The confirmation engine\<close>

text \<open>
  In the current-epoch branch Python's \<^verbatim>\<open>and\<close> calls \<^verbatim>\<open>__is_ffg_confirmed\<close> only when
  the two conjuncts before it are true, and the value of the conjunction is then the value
  of that call.
\<close>

definition is_confirmed ::
    "ConfRule \<Rightarrow> conf_info \<Rightarrow> root \<Rightarrow> ((error + bool) \<times> ConfRule) option" where
  "is_confirmed st ci block_root =
     (let current_epoch = compute_epoch_at_slot (current_slot st)
      in case map_of (ci_nodes ci) block_root of
           None \<Rightarrow> Some (Inl KeyError, st)
         | Some block \<Rightarrow>
             (let block_slot = n_slot block;
                  block_epoch = compute_epoch_at_slot block_slot
              in if ci_finalized_checkpoint_root ci = block_root
                    \<or> confirmed_head_root st = Some block_root
                 then Some (Inr True, st)
                 else read_only st (get_checkpoint_block block_root ci (current_epoch - 1))
                   (\<lambda>second_highest_checkpoint_root.
                      if block_epoch = current_epoch then
                        read_only st (is_lmd_confirmed st ci block_root)
                          (\<lambda>lmd_confirmed.
                             if (second_highest_checkpoint_root = ci_justified_checkpoint_root ci
                                 \<or> second_highest_checkpoint_root = ci_finalized_checkpoint_root ci)
                                \<and> lmd_confirmed
                             then is_ffg_confirmed st ci block_root
                             else Some (Inr False, st))
                      else if block_epoch = current_epoch - 1 then
                        (if second_highest_checkpoint_root = ci_finalized_checkpoint_root ci then
                           read_only st (is_lmd_confirmed st ci block_root)
                             (\<lambda>lmd_confirmed. Some (Inr lmd_confirmed, st))
                         else
                           read_only st (get_checkpoint_block block_root ci (current_epoch - 2))
                             (\<lambda>third_highest_checkpoint_root.
                                read_only st (is_lmd_confirmed st ci block_root)
                                  (\<lambda>lmd_confirmed.
                                     Some (Inr (Some second_highest_checkpoint_root
                                                  = ffg_confirmed_checkpoint st
                                                \<and> second_highest_checkpoint_root
                                                  = ci_justified_checkpoint_root ci
                                                \<and> lmd_confirmed
                                                \<and> third_highest_checkpoint_root
                                                  = ci_finalized_checkpoint_root ci), st))))
                      else Some (Inr False, st))))"

partial_function (option) find_confirmed_block_head ::
    "ConfRule \<Rightarrow> conf_info \<Rightarrow> root \<Rightarrow> ((error + root) \<times> ConfRule) option" where
  "find_confirmed_block_head st ci block_root =
     (case is_confirmed st ci block_root of
        None \<Rightarrow> None
      | Some (r, st') \<Rightarrow>
          (case r of
             Inl e \<Rightarrow> Some (Inl e, st')
           | Inr confirmed \<Rightarrow>
               if confirmed then Some (Inr block_root, st')
               else (case map_of (ci_nodes ci) block_root of
                       None \<Rightarrow> Some (Inl KeyError, st')
                     | Some node \<Rightarrow> find_confirmed_block_head st' ci (n_parent_root node))))"

text \<open>
  \<^verbatim>\<open>sorted\<close> is stable, as \<^const>\<open>sort_key\<close> is; the head is the key of the last item of
  the sorted list.
\<close>

definition find_head_root :: "conf_info \<Rightarrow> error + root" where
  "find_head_root ci =
     (let sorted_nodes = sort_key (\<lambda>item. n_slot (snd item)) (ci_nodes ci)
      in if sorted_nodes = [] then Inl IndexError else Inr (fst (last sorted_nodes)))"


section \<open>Latency and anomaly reporter\<close>

definition deal_with_empty_or_forked_slot :: "ConfRule \<Rightarrow> int \<Rightarrow> ConfRule" where
  "deal_with_empty_or_forked_slot st slot =
     st\<lparr>empty_or_forked_slots := empty_or_forked_slots st @ [slot]\<rparr>"

text \<open>
  The \<^verbatim>\<open>while\<close> loop of \<^verbatim>\<open>__compute_conf_times\<close>. Its variables are \<^verbatim>\<open>cur_root\<close>,
  \<^verbatim>\<open>pre_slot\<close> and \<^verbatim>\<open>conf_times\<close>; \<^verbatim>\<open>old_head_slot\<close> and \<^verbatim>\<open>old_head_root\<close> were read
  before it. \<^verbatim>\<open>range(a, b)\<close> is the list \<open>[a..b - 1]\<close>. The loop yields \<^verbatim>\<open>pre_slot\<close> and
  \<^verbatim>\<open>conf_times\<close> as they are when it ends.
\<close>

partial_function (option) conf_times_loop ::
    "ConfRule \<Rightarrow> conf_info \<Rightarrow> int \<Rightarrow> root option \<Rightarrow> root \<Rightarrow> int \<Rightarrow> int list
      \<Rightarrow> ((error + int \<times> int list) \<times> ConfRule) option" where
  "conf_times_loop st ci old_head_slot old_head_root cur_root pre_slot new_times =
     (if Some cur_root \<noteq> old_head_root then
        (case map_of (ci_nodes ci) cur_root of
           None \<Rightarrow> Some (Inl KeyError, st)
         | Some node \<Rightarrow>
             (let cur_slot = n_slot node
              in if cur_slot \<le> old_head_slot
                 then Some (Inr (pre_slot, new_times), st\<lparr>logged := logged st @ [ConfirmedBlockIsForked]\<rparr>)
                 else
                   (let st1 = (if pre_slot - cur_slot > 1
                               then foldl deal_with_empty_or_forked_slot st [cur_slot + 1..pre_slot - 1]
                               else st);
                        time = (current_slot st1 - cur_slot) * SLOT_LEN + time_in_current_slot st1
                    in conf_times_loop st1 ci old_head_slot old_head_root
                         (n_parent_root node) cur_slot (new_times @ [time]))))
      else Some (Inr (pre_slot, new_times), st))"

definition compute_conf_times ::
    "ConfRule \<Rightarrow> root \<Rightarrow> conf_info \<Rightarrow> ((error + int list) \<times> ConfRule) option" where
  "compute_conf_times st new_head_root ci =
     (let old_head_slot = confirmed_head_slot st;
          old_head_root = confirmed_head_root st
      in case map_of (ci_nodes ci) new_head_root of
           None \<Rightarrow> Some (Inl KeyError, st)
         | Some new_head \<Rightarrow>
             (case conf_times_loop st ci old_head_slot old_head_root new_head_root
                     (n_slot new_head) [] of
                None \<Rightarrow> None
              | Some (r, st1) \<Rightarrow>
                  (case r of
                     Inl e \<Rightarrow> Some (Inl e, st1)
                   | Inr (pre_slot, new_times) \<Rightarrow>
                       Some (Inr new_times,
                         if pre_slot - old_head_slot > 1
                         then foldl deal_with_empty_or_forked_slot st1
                                [old_head_slot + 1..pre_slot - 1]
                         else st1))))"

definition get_time_from_last_confirmed_block :: "ConfRule \<Rightarrow> int" where
  "get_time_from_last_confirmed_block st =
     (current_slot st - confirmed_head_slot st) * SLOT_LEN + time_in_current_slot st"


section \<open>The public transition\<close>

text \<open>
  The body of \<^verbatim>\<open>update_confirmed_head\<close> is given in parts, in the order of the source:
  the statements that enter the snapshot's slot, the search for the confirmed head, the
  three-way comparison with the stored confirmed head slot, and the last statement,
  reached on all three branches, that appends to \<^verbatim>\<open>times_from_confirmed_head\<close>.
\<close>

definition enter_slot :: "ConfRule \<Rightarrow> conf_info \<Rightarrow> ConfRule" where
  "enter_slot st ci =
     st\<lparr>current_slot := ci_current_slot ci,
        time_in_current_slot := ci_current_time_in_slot ci,
        processed_slots := insert (ci_current_slot ci) (processed_slots st)\<rparr>"

definition append_time_from_confirmed_head :: "ConfRule \<Rightarrow> ((error + unit) \<times> ConfRule) option" where
  "append_time_from_confirmed_head st =
     Some (Inr (), st\<lparr>times_from_confirmed_head :=
                        times_from_confirmed_head st @ [get_time_from_last_confirmed_block st]\<rparr>)"

definition record_confirmed_head ::
    "bool \<Rightarrow> ConfRule \<Rightarrow> conf_info \<Rightarrow> root \<Rightarrow> int \<Rightarrow> ((error + unit) \<times> ConfRule) option" where
  "record_confirmed_head record_conf_time st ci new_head_root new_head_slot =
     (if new_head_slot > confirmed_head_slot st then
        (if record_conf_time then
           (case compute_conf_times st new_head_root ci of
              None \<Rightarrow> None
            | Some (r, st1) \<Rightarrow>
                (case r of
                   Inl e \<Rightarrow> Some (Inl e, st1)
                 | Inr new_times \<Rightarrow>
                     append_time_from_confirmed_head
                       (st1\<lparr>conf_times := conf_times st1 @ new_times,
                            confirmed_head_root := Some new_head_root,
                            confirmed_head_slot := new_head_slot\<rparr>)))
         else append_time_from_confirmed_head
                (st\<lparr>confirmed_head_root := Some new_head_root,
                    confirmed_head_slot := new_head_slot\<rparr>))
      else if new_head_slot = confirmed_head_slot st then
        append_time_from_confirmed_head st
      else
        append_time_from_confirmed_head
          (st\<lparr>logged := logged st @
             [ConfirmationHeadGoesBackwards (confirmed_head_slot st) new_head_slot]\<rparr>))"

definition update_confirmed_head ::
    "ConfRule \<Rightarrow> conf_info \<Rightarrow> ((error + unit) \<times> ConfRule) option" where
  "update_confirmed_head st ci =
     (if \<not> current_slot st \<le> ci_current_slot ci then Some (Inl OrderingAssertion, st)
      else
        (let record_conf_time = (\<not> current_slot st + 1 < ci_current_slot ci);
             st1 = enter_slot st ci
         in case find_head_root ci of
              Inl e \<Rightarrow> Some (Inl e, st1)
            | Inr head_root \<Rightarrow>
                (case find_confirmed_block_head st1 ci head_root of
                   None \<Rightarrow> None
                 | Some (r, st2) \<Rightarrow>
                     (case r of
                        Inl e \<Rightarrow> Some (Inl e, st2)
                      | Inr new_head_root \<Rightarrow>
                          (case map_of (ci_nodes ci) new_head_root of
                             None \<Rightarrow> Some (Inl KeyError, st2)
                           | Some new_head \<Rightarrow>
                               record_confirmed_head record_conf_time st2 ci
                                 new_head_root (n_slot new_head))))))"

text \<open>
  \<^verbatim>\<open>execute_rule\<close> of \<^verbatim>\<open>analyze_data.py\<close> feeds the snapshots to the engine in the order
  of the sorted files; an exception ends the run.
\<close>

fun execute_rule :: "ConfRule \<Rightarrow> conf_info list \<Rightarrow> ((error + unit) \<times> ConfRule) option" where
  "execute_rule st [] = Some (Inr (), st)"
| "execute_rule st (ci # rest) =
     (case update_confirmed_head st ci of
        None \<Rightarrow> None
      | Some (r, st') \<Rightarrow>
          (case r of Inl e \<Rightarrow> Some (Inl e, st') | Inr u \<Rightarrow> execute_rule st' rest))"

definition get_conf_times :: "ConfRule \<Rightarrow> int list" where
  "get_conf_times st = conf_times st"

definition get_num_of_processed_slots :: "ConfRule \<Rightarrow> nat" where
  "get_num_of_processed_slots st = card (processed_slots st)"

definition get_empty_or_forked_slots :: "ConfRule \<Rightarrow> int list" where
  "get_empty_or_forked_slots st = empty_or_forked_slots st"


section \<open>The two comparisons in the words of the specification\<close>




section \<open>Parent chains and the gaps between their slots\<close>

text \<open>
  Two notions used to state what \<^verbatim>\<open>__compute_conf_times\<close> records. \<open>parent_chain ci r ns old\<close>
  says that the walk along parent links from root \<open>r\<close> visits exactly the nodes \<open>ns\<close>,
  none of them under the root \<open>old\<close>, and then arrives at \<open>old\<close>. \<open>gaps_between p slots\<close>
  lists, for a walk that starts below slot \<open>p\<close> and sees the slots \<open>slots\<close> in turn, the integer
  slots strictly between each two consecutive ones, in the order of the walk.
  \<open>conf_time_of\<close> is the confirmation time that the loop computes for a visited node.
\<close>

fun parent_chain :: "conf_info \<Rightarrow> root \<Rightarrow> node list \<Rightarrow> root \<Rightarrow> bool" where
  "parent_chain ci r [] old_root = (r = old_root)"
| "parent_chain ci r (n # ns) old_root =
     (r \<noteq> old_root \<and> map_of (ci_nodes ci) r = Some n
      \<and> parent_chain ci (n_parent_root n) ns old_root)"

fun gaps_between :: "int \<Rightarrow> int list \<Rightarrow> int list" where
  "gaps_between pre_slot [] = []"
| "gaps_between pre_slot (cur_slot # rest) =
     [cur_slot + 1..pre_slot - 1] @ gaps_between cur_slot rest"

definition conf_time_of :: "ConfRule \<Rightarrow> node \<Rightarrow> int" where
  "conf_time_of st n = (current_slot st - n_slot n) * SLOT_LEN + time_in_current_slot st"


section \<open>Walks of the head search and the fields the checks read\<close>

text \<open>
  Two notions used to compare two runs of the search for the confirmed head.
  \<open>same_reads st sa\<close> says that two engines agree on the thresholds and on the current slot.
  \<open>confirmed_walk st ci r ns c st'\<close> says that the search started at root \<open>r\<close> finds the nodes
  \<open>ns\<close> unconfirmed, one after the other along the parent links, and then finds \<open>c\<close>
  confirmed, leaving the engine \<open>st'\<close>.
\<close>

definition same_reads :: "ConfRule \<Rightarrow> ConfRule \<Rightarrow> bool" where
  "same_reads st sa =
     (confirmation_byzantine_threshold sa = confirmation_byzantine_threshold st
      \<and> confirmation_slashing_threshold sa = confirmation_slashing_threshold st
      \<and> current_slot sa = current_slot st)"

fun confirmed_walk ::
    "ConfRule \<Rightarrow> conf_info \<Rightarrow> root \<Rightarrow> node list \<Rightarrow> root \<Rightarrow> ConfRule \<Rightarrow> bool" where
  "confirmed_walk st ci r [] c st' = (r = c \<and> is_confirmed st ci r = Some (Inr True, st'))"
| "confirmed_walk st ci r (n # ns) c st' =
     (is_confirmed st ci r = Some (Inr False, st) \<and> map_of (ci_nodes ci) r = Some n
      \<and> confirmed_walk st ci (n_parent_root n) ns c st')"


section \<open>Evaluation of the partial functions\<close>

declare get_ancestor.simps [code] is_lmd_confirmed.simps [code]
  find_confirmed_block_head.simps [code] conf_times_loop.simps [code]


section \<open>Example snapshots and engines\<close>

text \<open>Concrete inputs on which the theorems below are instantiated.\<close>

definition snapshot_no_nodes :: conf_info where
  "snapshot_no_nodes =
     \<lparr> ci_current_slot = 0, ci_current_time_in_slot = 0, ci_nodes = [],
       ci_justified_checkpoint_root = ''j'', ci_finalized_checkpoint_root = ''f'',
       ci_committee_size = 1 \<rparr>"

definition example_node :: "root \<Rightarrow> int \<Rightarrow> root \<Rightarrow> int \<Rightarrow> root \<times> node" where
  "example_node r s p w = (r, \<lparr> n_block_root = r, n_slot = s, n_parent_root = p, n_weight = w \<rparr>)"

text \<open>
  A snapshot at slot 77 (epoch 2): the finalized and justified block \<open>g\<close> at slot 32, its
  child \<open>a\<close> at slot 74 and the head \<open>b\<close> at slot 77; slots 75 and 76 have no block.
\<close>

definition snapshot_slot_77 :: conf_info where
  "snapshot_slot_77 =
     \<lparr> ci_current_slot = 77, ci_current_time_in_slot = 4,
       ci_nodes = [example_node ''g'' 32 ''z'' 900000000000,
                   example_node ''a'' 74 ''g'' 200000000000,
                   example_node ''b'' 77 ''a'' 90000000000],
       ci_justified_checkpoint_root = ''g'', ci_finalized_checkpoint_root = ''g'',
       ci_committee_size = 1 \<rparr>"

text \<open>An engine that processed slot 76 and has confirmed block \<open>a\<close>.\<close>

definition engine_at_slot_76 :: ConfRule where
  "engine_at_slot_76 =
     (init_ConfRule (1 / 10) (1 / 20))
       \<lparr>confirmed_head_root := Some ''a'', confirmed_head_slot := 74,
        current_slot := 76, processed_slots := {76}\<rparr>"

text \<open>The same engine after it entered slot 77.\<close>

definition engine_at_slot_77 :: ConfRule where
  "engine_at_slot_77 = enter_slot engine_at_slot_76 snapshot_slot_77"

text \<open>An engine whose confirmed head, at slot 80, is not a block of the snapshot.\<close>

definition engine_ahead :: ConfRule where
  "engine_ahead =
     (init_ConfRule (1 / 10) (1 / 20))
       \<lparr>confirmed_head_root := Some ''x'', confirmed_head_slot := 80,
        current_slot := 76, processed_slots := {76}\<rparr>"


text \<open>What \<^verbatim>\<open>update_confirmed_head\<close> makes of that engine on the snapshot at slot 77, once and twice.\<close>

definition engine_after_slot_77 :: ConfRule where
  "engine_after_slot_77 =
     engine_at_slot_76
       \<lparr>empty_or_forked_slots := [75, 76],
        confirmed_head_root := Some ''b'', confirmed_head_slot := 77,
        current_slot := 77, time_in_current_slot := 4,
        times_from_confirmed_head := [4], conf_times := [4],
        processed_slots := {76, 77}\<rparr>"

definition engine_after_duplicate :: ConfRule where
  "engine_after_duplicate = engine_after_slot_77\<lparr>times_from_confirmed_head := [4, 4]\<rparr>"

text \<open>
  A snapshot at slot 95, the last slot of epoch 2: the finalized and justified block \<open>g\<close> at
  slot 32, the checkpoint block \<open>c\<close> of epoch 2 at slot 64, its child \<open>d\<close> at slot 93 and
  the head \<open>h\<close> at slot 95. The engine has processed slot 94 and has confirmed \<open>d\<close>.
  Confirming \<open>h\<close> also records \<open>c\<close> as the FFG-confirmed checkpoint.
\<close>

definition snapshot_slot_95 :: conf_info where
  "snapshot_slot_95 =
     \<lparr> ci_current_slot = 95, ci_current_time_in_slot = 7,
       ci_nodes = [example_node ''g'' 32 ''z'' 900000000000,
                   example_node ''c'' 64 ''g'' 800000000000,
                   example_node ''d'' 93 ''c'' 700000000000,
                   example_node ''h'' 95 ''d'' 60000000000],
       ci_justified_checkpoint_root = ''g'', ci_finalized_checkpoint_root = ''g'',
       ci_committee_size = 1 \<rparr>"

definition engine_at_slot_94 :: ConfRule where
  "engine_at_slot_94 =
     (init_ConfRule (1 / 10) (1 / 20))
       \<lparr>confirmed_head_root := Some ''d'', confirmed_head_slot := 93,
        current_slot := 94, processed_slots := {94}\<rparr>"

definition engine_after_slot_95 :: ConfRule where
  "engine_after_slot_95 =
     engine_at_slot_94
       \<lparr>empty_or_forked_slots := [94],
        confirmed_head_root := Some ''h'', confirmed_head_slot := 95,
        ffg_confirmed_checkpoint := Some ''c'',
        current_slot := 95, time_in_current_slot := 7,
        times_from_confirmed_head := [7], conf_times := [7],
        processed_slots := {94, 95}\<rparr>"

text \<open>A snapshot of an earlier slot.\<close>

definition snapshot_slot_5 :: conf_info where
  "snapshot_slot_5 = snapshot_no_nodes\<lparr>ci_current_slot := 5\<rparr>"

text \<open>
  The confirmed head jumps from the block \<open>p\<close> at slot 10 to its child \<open>q\<close> at slot 13.
\<close>

definition snapshot_slot_13 :: conf_info where
  "snapshot_slot_13 =
     \<lparr> ci_current_slot = 13, ci_current_time_in_slot = 4,
       ci_nodes = [example_node ''p'' 10 ''o'' 500000000000,
                   example_node ''q'' 13 ''p'' 90000000000],
       ci_justified_checkpoint_root = ''p'', ci_finalized_checkpoint_root = ''o'',
       ci_committee_size = 1 \<rparr>"

definition engine_at_slot_13 :: ConfRule where
  "engine_at_slot_13 =
     (init_ConfRule (1 / 10) (1 / 20))
       \<lparr>confirmed_head_root := Some ''p'', confirmed_head_slot := 10,
        current_slot := 13, time_in_current_slot := 4, processed_slots := {12, 13}\<rparr>"


section \<open>Arithmetic of slots and of ceiling division\<close>

lemma slot_split:
  obtains q r where "(a::int) = 32 * q + r" "0 \<le> r" "r < 32" "a div 32 = q" "a mod 32 = r"
proof -
  have "a = 32 * (a div 32) + a mod 32" by simp
  moreover have "0 \<le> a mod 32" "a mod 32 < 32" by simp_all
  ultimately show ?thesis using that by blast
qed

lemma succ_mod32: "((e::int) + 1) mod 32 = 0 \<longleftrightarrow> e mod 32 = 31"
proof -
  obtain q r where e: "e = 32 * q + r" "0 \<le> r" "r < 32" "e mod 32 = r" by (rule slot_split)
  have "(e + 1) mod 32 = (r + 1) mod 32" using e(1) by (simp add: add.assoc)
  also have "\<dots> = (if r = 31 then 0 else r + 1)" using e(2,3) by (simp add: mod_pos_pos_trivial)
  finally show ?thesis using e(2,3,4) by auto
qed

lemma covered_split:
  assumes "s = 32 * qs + rs" "s div 32 = qs" "s mod 32 = rs"
    and "e = 32 * qe + re" "e div 32 = qe" "e mod 32 = re"
  shows "is_full_validator_set_covered s e \<longleftrightarrow>
      (qe > qs + 1 \<or> ((rs = 0 \<or> re = 31) \<and> s + 31 \<le> e))"
  unfolding is_full_validator_set_covered_def compute_epoch_at_slot_def SLOTS_PER_EPOCH_def
    Let_def succ_mod32 assms(2,3,5,6) by auto

text \<open>
  The test of the source holds exactly for the ranges that contain every slot of some
  epoch \<open>k\<close>, that is the slots \<open>32 * k, \<dots>, 32 * k + 31\<close>.
\<close>

lemma covered_iff:
  "is_full_validator_set_covered s e \<longleftrightarrow> (\<exists>k. s \<le> k * 32 \<and> k * 32 + 31 \<le> e)"
proof -
  obtain qs rs where s: "s = 32 * qs + rs" "0 \<le> rs" "rs < 32" "s div 32 = qs" "s mod 32 = rs"
    by (rule slot_split)
  obtain qe re where e: "e = 32 * qe + re" "0 \<le> re" "re < 32" "e div 32 = qe" "e mod 32 = re"
    by (rule slot_split)
  note c = covered_split [OF s(1,4,5) e(1,4,5)]
  show ?thesis
  proof
    assume "is_full_validator_set_covered s e"
    then consider "qe > qs + 1" | "rs = 0" "s + 31 \<le> e" | "re = 31" "s + 31 \<le> e"
      using c by blast
    then show "\<exists>k. s \<le> k * 32 \<and> k * 32 + 31 \<le> e"
    proof cases
      case 1
      then have "s \<le> (qs + 1) * 32" "(qs + 1) * 32 + 31 \<le> e" using s(1-3) e(1-3) by auto
      then show ?thesis by blast
    next
      case 2
      then have "s \<le> qs * 32" "qs * 32 + 31 \<le> e" using s(1-3) e(1-3) by auto
      then show ?thesis by blast
    next
      case 3
      then have "s \<le> qe * 32" "qe * 32 + 31 \<le> e" using s(1-3) e(1-3) by auto
      then show ?thesis by blast
    qed
  next
    assume "\<exists>k. s \<le> k * 32 \<and> k * 32 + 31 \<le> e"
    then obtain k where k: "s \<le> k * 32" "k * 32 + 31 \<le> e" by blast
    have le: "s + 31 \<le> e" using k by linarith
    have "qe > qs + 1 \<or> ((rs = 0 \<or> re = 31) \<and> s + 31 \<le> e)"
    proof (cases "rs = 0 \<or> re = 31")
      case True
      then show ?thesis using le by blast
    next
      case False
      then have "0 < rs" "re < 31" using s(2) e(3) by auto
      then have "qs < k" "k < qe" using k s(1) e(1) by auto
      then show ?thesis by auto
    qed
    then show "is_full_validator_set_covered s e" using c by blast
  qed
qed

lemma covered_imp_le: "is_full_validator_set_covered s e \<Longrightarrow> s \<le> e"
  unfolding covered_iff by auto

lemma committee_weight_of_covered:
  assumes "is_full_validator_set_covered s e"
  shows "get_committee_weight_between_slots ci s e = get_total_active_balance ci"
  using assms covered_imp_le [OF assms]
  by (simp add: get_committee_weight_between_slots_def Let_def)
















section \<open>Errors and effects of the engine's functions\<close>

lemma get_ancestor_error_aux:
  "get_ancestor block_root slot ci = Some r \<Longrightarrow> (case r of Inl e \<Rightarrow> e = KeyError | Inr v \<Rightarrow> True)"
proof (erule get_ancestor.raw_induct
    [rotated, where P = "\<lambda>b s c r. case r of Inl e \<Rightarrow> e = KeyError | Inr v \<Rightarrow> True"])
  fix get_ancestor block_root slot ci r
  assume "\<And>b s c y. get_ancestor b s c = Some y
            \<Longrightarrow> (case y of Inl e \<Rightarrow> e = KeyError | Inr v \<Rightarrow> True)"
    and "(case map_of (ci_nodes ci) block_root of
            None \<Rightarrow> Some (Inl KeyError)
          | Some node \<Rightarrow>
              if n_slot node > slot then get_ancestor (n_parent_root node) slot ci
              else Some (Inr (n_block_root node))) = Some r"
  then show "case r of Inl e \<Rightarrow> e = KeyError | Inr v \<Rightarrow> True"
    by (auto split: option.splits if_splits)
qed

lemma get_ancestor_error: "get_ancestor block_root slot ci = Some (Inl e) \<Longrightarrow> e = KeyError"
  using get_ancestor_error_aux by fastforce

lemma is_one_lmd_confirmed_error: "is_one_lmd_confirmed st ci block_root = Inl e \<Longrightarrow> e = KeyError"
  by (auto simp: is_one_lmd_confirmed_def Let_def split: option.splits)

lemma is_lmd_confirmed_error_aux:
  "is_lmd_confirmed st ci block_root = Some r \<Longrightarrow> (case r of Inl e \<Rightarrow> e = KeyError | Inr v \<Rightarrow> True)"
proof (erule is_lmd_confirmed.raw_induct
    [rotated, where P = "\<lambda>s c b r. case r of Inl e \<Rightarrow> e = KeyError | Inr v \<Rightarrow> True"])
  fix is_lmd_confirmed st ci block_root r
  assume ih: "\<And>s c b y. is_lmd_confirmed s c b = Some y
            \<Longrightarrow> (case y of Inl e \<Rightarrow> e = KeyError | Inr v \<Rightarrow> True)"
    and step: "(case map_of (ci_nodes ci) block_root of
        None \<Rightarrow> Some (Inl KeyError)
      | Some node \<Rightarrow>
          if ci_finalized_checkpoint_root ci = block_root
             \<or> confirmed_head_root st = Some block_root
          then Some (Inr True)
          else (case is_one_lmd_confirmed st ci block_root of
                  Inl e \<Rightarrow> Some (Inl e)
                | Inr one_confirmed \<Rightarrow>
                    if one_confirmed then is_lmd_confirmed st ci (n_parent_root node)
                    else Some (Inr False))) = Some r"
  show "case r of Inl e \<Rightarrow> e = KeyError | Inr v \<Rightarrow> True"
    using step
    by (auto split: option.splits if_splits sum.splits dest: is_one_lmd_confirmed_error ih)
qed

lemma is_lmd_confirmed_error: "is_lmd_confirmed st ci block_root = Some (Inl e) \<Longrightarrow> e = KeyError"
  using is_lmd_confirmed_error_aux by fastforce

lemma get_checkpoint_block_error:
  "get_checkpoint_block block_root ci epoch = Some (Inl e) \<Longrightarrow> e = KeyError"
  unfolding get_checkpoint_block_def Let_def by (rule get_ancestor_error)

lemma read_only_cases:
  assumes "read_only st m f = Some r"
  obtains e where "m = Some (Inl e)" "r = (Inl e, st)" | v where "m = Some (Inr v)" "f v = Some r"
  using assms unfolding read_only_def by (auto split: option.splits sum.splits)

lemma get_checkpoint_ffg_support_error:
  "get_checkpoint_ffg_support block_root ci epoch = Some (Inl e) \<Longrightarrow> e = KeyError"
  by (auto simp: get_checkpoint_ffg_support_def split: option.splits sum.splits
      dest: get_checkpoint_block_error)

lemma is_ffg_confirmed_Inl:
  assumes "is_ffg_confirmed st ci block_root = Some (Inl e, st')"
  shows "st' = st \<and> (e = KeyError \<or> (e = EpochAssertion \<and> (\<exists>block. map_of (ci_nodes ci) block_root = Some block
      \<and> compute_epoch_at_slot (n_slot block) \<noteq> compute_epoch_at_slot (current_slot st))))"
  using assms unfolding is_ffg_confirmed_def read_only_def Let_def
  by (auto split: option.splits sum.splits if_splits prod.splits dest: get_checkpoint_ffg_support_error)

lemma is_ffg_confirmed_False:
  assumes "is_ffg_confirmed st ci block_root = Some (Inr False, st')"
  shows "st' = st"
  using assms unfolding is_ffg_confirmed_def read_only_def Let_def
  by (auto split: option.splits sum.splits if_splits prod.splits)

lemma is_ffg_confirmed_True:
  assumes "is_ffg_confirmed st ci block_root = Some (Inr True, st')"
  shows "\<exists>block. map_of (ci_nodes ci) block_root = Some block
      \<and> compute_epoch_at_slot (n_slot block) = compute_epoch_at_slot (current_slot st)
      \<and> (st' = st \<or> (\<exists>cp. st' = st\<lparr>ffg_confirmed_checkpoint := Some cp\<rparr>))"
  using assms unfolding is_ffg_confirmed_def read_only_def Let_def
  by (auto split: option.splits sum.splits if_splits prod.splits)


lemma is_confirmed_Inl:
  assumes "is_confirmed st ci block_root = Some (Inl e, st')"
  shows "e = KeyError \<and> st' = st"
  using assms unfolding is_confirmed_def read_only_def Let_def
  by (auto split: option.splits sum.splits if_splits
      dest: get_checkpoint_block_error is_lmd_confirmed_error is_ffg_confirmed_Inl)

lemma is_confirmed_False:
  assumes "is_confirmed st ci block_root = Some (Inr False, st')"
  shows "st' = st \<and> ci_finalized_checkpoint_root ci \<noteq> block_root
     \<and> confirmed_head_root st \<noteq> Some block_root
     \<and> (\<exists>block. map_of (ci_nodes ci) block_root = Some block)"
  using assms unfolding is_confirmed_def read_only_def Let_def
  by (auto split: option.splits sum.splits if_splits dest: is_ffg_confirmed_False)

lemma is_confirmed_True:
  assumes "is_confirmed st ci block_root = Some (Inr True, st')"
  shows "\<exists>block. map_of (ci_nodes ci) block_root = Some block
     \<and> (st' = st \<or> (\<exists>cp. st' = st\<lparr>ffg_confirmed_checkpoint := Some cp\<rparr>
            \<and> compute_epoch_at_slot (n_slot block) = compute_epoch_at_slot (current_slot st)))"
  using assms unfolding is_confirmed_def read_only_def Let_def
  by (auto split: option.splits sum.splits if_splits dest: is_ffg_confirmed_True)

lemma is_confirmed_True_lmd:
  assumes "is_confirmed st ci block_root = Some (Inr True, st')"
  shows "is_lmd_confirmed st ci block_root = Some (Inr True)"
proof (cases "ci_finalized_checkpoint_root ci = block_root \<or> confirmed_head_root st = Some block_root")
  case True
  obtain block where "map_of (ci_nodes ci) block_root = Some block"
    using is_confirmed_True [OF assms] by blast
  then show ?thesis using True by (subst is_lmd_confirmed.simps) auto
next
  case False
  then show ?thesis
    using assms unfolding is_confirmed_def read_only_def Let_def
    by (auto split: option.splits sum.splits if_splits)
qed

lemma find_confirmed_block_head_result:
  "find_confirmed_block_head st ci block_root = Some res \<Longrightarrow>
     (case res of
        (Inl e, st') \<Rightarrow> e = KeyError \<and> st' = st
      | (Inr c, st') \<Rightarrow> is_confirmed st ci c = Some (Inr True, st'))"
proof (erule find_confirmed_block_head.raw_induct
    [rotated, where P = "\<lambda>st ci block_root res. case res of
        (Inl e, st') \<Rightarrow> e = KeyError \<and> st' = st
      | (Inr c, st') \<Rightarrow> is_confirmed st ci c = Some (Inr True, st')"])
  fix find_confirmed_block_head st ci block_root res
  assume ih: "\<And>s c b y. find_confirmed_block_head s c b = Some y \<Longrightarrow>
       (case y of
        (Inl e, st') \<Rightarrow> e = KeyError \<and> st' = s
      | (Inr r, st') \<Rightarrow> is_confirmed s c r = Some (Inr True, st'))"
    and step: "(case is_confirmed st ci block_root of
        None \<Rightarrow> None
      | Some (r, st') \<Rightarrow>
          (case r of
             Inl e \<Rightarrow> Some (Inl e, st')
           | Inr confirmed \<Rightarrow>
               if confirmed then Some (Inr block_root, st')
               else (case map_of (ci_nodes ci) block_root of
                       None \<Rightarrow> Some (Inl KeyError, st')
                     | Some node \<Rightarrow> find_confirmed_block_head st' ci (n_parent_root node)))) = Some res"
  from step obtain r st1 where ic: "is_confirmed st ci block_root = Some (r, st1)"
    by (cases "is_confirmed st ci block_root") auto
  show "case res of
        (Inl e, st') \<Rightarrow> e = KeyError \<and> st' = st
      | (Inr c, st') \<Rightarrow> is_confirmed st ci c = Some (Inr True, st')"
  proof (cases r)
    case (Inl e)
    then show ?thesis using step ic is_confirmed_Inl [of st ci block_root e st1] by auto
  next
    case (Inr confirmed)
    show ?thesis
    proof (cases confirmed)
      case True
      then show ?thesis using step ic Inr by auto
    next
      case False
      then have f: "is_confirmed st ci block_root = Some (Inr False, st1)" using ic Inr by simp
      from is_confirmed_False [OF f] obtain block where
        b: "st1 = st" "map_of (ci_nodes ci) block_root = Some block" by blast
      have "find_confirmed_block_head st ci (n_parent_root block) = Some res"
        using step f b by simp
      from ih [OF this] show ?thesis .
    qed
  qed
qed


lemma foldl_deal:
  "foldl deal_with_empty_or_forked_slot st xs
     = st\<lparr>empty_or_forked_slots := empty_or_forked_slots st @ xs\<rparr>"
  by (induct xs arbitrary: st) (simp_all add: deal_with_empty_or_forked_slot_def)

lemma anomaly_frame_trans:
  fixes st st1 st' :: ConfRule
  assumes "st'\<lparr>empty_or_forked_slots := empty_or_forked_slots st1, logged := logged st1\<rparr> = st1"
    and "st1\<lparr>empty_or_forked_slots := empty_or_forked_slots st, logged := logged st\<rparr> = st"
  shows "st'\<lparr>empty_or_forked_slots := empty_or_forked_slots st, logged := logged st\<rparr> = st"
  using assms by (cases st, cases st1, cases st') simp

lemma anomaly_frame_fields:
  fixes st st' :: ConfRule
  assumes "st'\<lparr>empty_or_forked_slots := empty_or_forked_slots st, logged := logged st\<rparr> = st"
  shows "confirmed_head_slot st' = confirmed_head_slot st"
    "confirmed_head_root st' = confirmed_head_root st"
    "conf_times st' = conf_times st"
    "processed_slots st' = processed_slots st"
    "current_slot st' = current_slot st"
    "ffg_confirmed_checkpoint st' = ffg_confirmed_checkpoint st"
    "confirmation_byzantine_threshold st' = confirmation_byzantine_threshold st"
    "confirmation_slashing_threshold st' = confirmation_slashing_threshold st"
    "time_in_current_slot st' = time_in_current_slot st"
    "times_from_confirmed_head st' = times_from_confirmed_head st"
  using assms by (cases st, cases st', simp)+

lemma conf_times_loop_effect:
  "conf_times_loop st ci old_head_slot old_head_root cur_root pre_slot new_times = Some res \<Longrightarrow>
     (case res of (r, st') \<Rightarrow>
        (case r of Inl e \<Rightarrow> e = KeyError | Inr v \<Rightarrow> True)
        \<and> st'\<lparr>empty_or_forked_slots := empty_or_forked_slots st, logged := logged st\<rparr> = st)"
proof (erule conf_times_loop.raw_induct
    [rotated, where P = "\<lambda>st ci old_head_slot old_head_root cur_root pre_slot new_times res.
       case res of (r, st') \<Rightarrow>
        (case r of Inl e \<Rightarrow> e = KeyError | Inr v \<Rightarrow> True)
        \<and> st'\<lparr>empty_or_forked_slots := empty_or_forked_slots st, logged := logged st\<rparr> = st"])
  fix conf_times_loop st ci old_head_slot old_head_root cur_root pre_slot new_times res
  assume ih: "\<And>s c a b d f g y. conf_times_loop s c a b d f g = Some y \<Longrightarrow>
       (case y of (r, st') \<Rightarrow>
        (case r of Inl e \<Rightarrow> e = KeyError | Inr v \<Rightarrow> True)
        \<and> st'\<lparr>empty_or_forked_slots := empty_or_forked_slots s, logged := logged s\<rparr> = s)"
    and step: "(if Some cur_root \<noteq> old_head_root then
        (case map_of (ci_nodes ci) cur_root of
           None \<Rightarrow> Some (Inl KeyError, st)
         | Some node \<Rightarrow>
             (let cur_slot = n_slot node
              in if cur_slot \<le> old_head_slot
                 then Some (Inr (pre_slot, new_times), st\<lparr>logged := logged st @ [ConfirmedBlockIsForked]\<rparr>)
                 else
                   (let st1 = (if pre_slot - cur_slot > 1
                               then foldl deal_with_empty_or_forked_slot st [cur_slot + 1..pre_slot - 1]
                               else st);
                        time = (current_slot st1 - cur_slot) * SLOT_LEN + time_in_current_slot st1
                    in conf_times_loop st1 ci old_head_slot old_head_root
                         (n_parent_root node) cur_slot (new_times @ [time]))))
      else Some (Inr (pre_slot, new_times), st)) = Some res"
  show "case res of (r, st') \<Rightarrow>
        (case r of Inl e \<Rightarrow> e = KeyError | Inr v \<Rightarrow> True)
        \<and> st'\<lparr>empty_or_forked_slots := empty_or_forked_slots st, logged := logged st\<rparr> = st"
  proof (cases "Some cur_root \<noteq> old_head_root")
    case False
    then show ?thesis using step by auto
  next
    case True
    show ?thesis
    proof (cases "map_of (ci_nodes ci) cur_root")
      case None
      then show ?thesis using step True by auto
    next
      case (Some node)
      show ?thesis
      proof (cases "n_slot node \<le> old_head_slot")
        case le: True
        then show ?thesis using step True Some by (auto simp: Let_def)
      next
        case gt: False
        define st1 where "st1 = (if pre_slot - n_slot node > 1
                               then foldl deal_with_empty_or_forked_slot st [n_slot node + 1..pre_slot - 1]
                               else st)"
        have rec: "conf_times_loop st1 ci old_head_slot old_head_root (n_parent_root node) (n_slot node)
           (new_times @ [(current_slot st1 - n_slot node) * SLOT_LEN + time_in_current_slot st1]) = Some res"
          using step True Some gt by (simp add: Let_def st1_def)
        obtain r st' where res: "res = (r, st')" by (cases res)
        from ih [OF rec] res have
          r: "case r of Inl e \<Rightarrow> e = KeyError | Inr v \<Rightarrow> True"
          and s: "st'\<lparr>empty_or_forked_slots := empty_or_forked_slots st1, logged := logged st1\<rparr> = st1"
          by auto
        have "st1\<lparr>empty_or_forked_slots := empty_or_forked_slots st, logged := logged st\<rparr> = st"
          by (simp add: st1_def foldl_deal)
        with s have "st'\<lparr>empty_or_forked_slots := empty_or_forked_slots st, logged := logged st\<rparr> = st"
          by (rule anomaly_frame_trans)
        then show ?thesis using r res by auto
      qed
    qed
  qed
qed


lemma compute_conf_times_effect:
  assumes "compute_conf_times st new_head_root ci = Some (r, st')"
  shows "(case r of Inl e \<Rightarrow> e = KeyError | Inr v \<Rightarrow> True)
     \<and> st'\<lparr>empty_or_forked_slots := empty_or_forked_slots st, logged := logged st\<rparr> = st"
proof (cases "map_of (ci_nodes ci) new_head_root")
  case None
  then show ?thesis using assms by (auto simp: compute_conf_times_def Let_def)
next
  case (Some new_head)
  from assms Some obtain r1 st1 where
    l: "conf_times_loop st ci (confirmed_head_slot st) (confirmed_head_root st) new_head_root
          (n_slot new_head) [] = Some (r1, st1)"
    by (auto simp: compute_conf_times_def Let_def split: option.splits)
  from conf_times_loop_effect [OF l] have
    r1: "case r1 of Inl e \<Rightarrow> e = KeyError | Inr v \<Rightarrow> True"
    and s: "st1\<lparr>empty_or_forked_slots := empty_or_forked_slots st, logged := logged st\<rparr> = st"
    by auto
  show ?thesis
  proof (cases r1)
    case (Inl e)
    then show ?thesis using assms Some l r1 s by (auto simp: compute_conf_times_def Let_def)
  next
    case (Inr v)
    obtain pre_slot tms where v: "v = (pre_slot, tms)" by (cases v)
    have r: "r = Inr tms" using assms Some l Inr v by (simp add: compute_conf_times_def Let_def)
    have "st' = st1 \<or> st' = st1\<lparr>empty_or_forked_slots :=
        empty_or_forked_slots st1 @ [confirmed_head_slot st + 1..pre_slot - 1]\<rparr>"
      using assms Some l Inr v by (auto simp: compute_conf_times_def Let_def foldl_deal split: if_splits)
    then have "st'\<lparr>empty_or_forked_slots := empty_or_forked_slots st1, logged := logged st1\<rparr> = st1"
      by auto
    then have "st'\<lparr>empty_or_forked_slots := empty_or_forked_slots st, logged := logged st\<rparr> = st"
      using s by (rule anomaly_frame_trans)
    then show ?thesis using r by simp
  qed
qed

text \<open>What the search for the confirmed head leaves of the engine.\<close>

lemma find_confirmed_block_head_frame:
  assumes "find_confirmed_block_head st ci block_root = Some (r, st')"
  shows "st'\<lparr>ffg_confirmed_checkpoint := ffg_confirmed_checkpoint st\<rparr> = st"
proof (cases r)
  case (Inl e)
  then show ?thesis using find_confirmed_block_head_result [OF assms] by simp
next
  case (Inr c)
  then have "is_confirmed st ci c = Some (Inr True, st')"
    using find_confirmed_block_head_result [OF assms] by simp
  from is_confirmed_True [OF this] show ?thesis by auto
qed

lemma record_confirmed_head_result:
  assumes "record_confirmed_head record_conf_time st ci new_head_root new_head_slot = Some (r, st')"
  shows "(case r of Inl e \<Rightarrow> e = KeyError | Inr v \<Rightarrow> True)
     \<and> confirmed_head_slot st \<le> confirmed_head_slot st'
     \<and> processed_slots st' = processed_slots st
     \<and> current_slot st' = current_slot st"
proof (cases "new_head_slot > confirmed_head_slot st \<and> record_conf_time")
  case False
  then show ?thesis
    using assms unfolding record_confirmed_head_def append_time_from_confirmed_head_def
    by (auto split: if_splits)
next
  case True
  from assms True obtain r1 st1 where
    c: "compute_conf_times st new_head_root ci = Some (r1, st1)"
    unfolding record_confirmed_head_def by (auto split: option.splits)
  note e = compute_conf_times_effect [OF c]
  note f = anomaly_frame_fields [OF conjunct2 [OF e]]
  show ?thesis
  proof (cases r1)
    case (Inl e1)
    then have "r = Inl e1" "st' = st1"
      using assms True c unfolding record_confirmed_head_def by simp_all
    then show ?thesis using e Inl f(1,4,5) by simp
  next
    case (Inr new_times)
    then have "r = Inr ()"
      "st' = st1\<lparr>conf_times := conf_times st1 @ new_times,
                  confirmed_head_root := Some new_head_root,
                  confirmed_head_slot := new_head_slot,
                  times_from_confirmed_head := times_from_confirmed_head st1 @
                    [get_time_from_last_confirmed_block
                       (st1\<lparr>conf_times := conf_times st1 @ new_times,
                            confirmed_head_root := Some new_head_root,
                            confirmed_head_slot := new_head_slot\<rparr>)]\<rparr>"
      using assms True c unfolding record_confirmed_head_def append_time_from_confirmed_head_def
      by simp_all
    then show ?thesis using True f(4,5) by simp
  qed
qed

lemma update_confirmed_head_result:
  assumes "update_confirmed_head st ci = Some (r, st')"
  shows "(ci_current_slot ci < current_slot st \<and> r = Inl OrderingAssertion \<and> st' = st)
     \<or> (current_slot st \<le> ci_current_slot ci
         \<and> (case r of Inl e \<Rightarrow> e = KeyError \<or> e = IndexError | Inr v \<Rightarrow> True)
         \<and> confirmed_head_slot st \<le> confirmed_head_slot st'
         \<and> processed_slots st' = insert (ci_current_slot ci) (processed_slots st)
         \<and> current_slot st' = ci_current_slot ci)"
proof (cases "current_slot st \<le> ci_current_slot ci")
  case False
  then show ?thesis using assms by (simp add: update_confirmed_head_def)
next
  case True
  show ?thesis
  proof (cases "find_head_root ci")
    case (Inl e)
    then have "e = IndexError" by (simp add: find_head_root_def Let_def split: if_splits)
    then show ?thesis using assms True Inl
      by (auto simp: update_confirmed_head_def Let_def enter_slot_def)
  next
    case (Inr head_root)
    from assms True Inr obtain rw st2 where
      w: "find_confirmed_block_head (enter_slot st ci) ci head_root = Some (rw, st2)"
      by (auto simp: update_confirmed_head_def Let_def split: option.splits)
    have f2: "confirmed_head_slot st2 = confirmed_head_slot st"
      "processed_slots st2 = insert (ci_current_slot ci) (processed_slots st)"
      "current_slot st2 = ci_current_slot ci"
      using arg_cong [OF find_confirmed_block_head_frame [OF w], of confirmed_head_slot]
        arg_cong [OF find_confirmed_block_head_frame [OF w], of processed_slots]
        arg_cong [OF find_confirmed_block_head_frame [OF w], of current_slot]
      by (simp_all add: enter_slot_def)
    show ?thesis
    proof (cases rw)
      case e: (Inl e)
      then have "e = KeyError" using find_confirmed_block_head_result [OF w] by simp
      then show ?thesis using assms True Inr w e f2
        by (auto simp: update_confirmed_head_def Let_def)
    next
      case c: (Inr c)
      show ?thesis
      proof (cases "map_of (ci_nodes ci) c")
        case None
        then show ?thesis using assms True Inr w c f2
          by (auto simp: update_confirmed_head_def Let_def)
      next
        case (Some new_head)
        then have "record_confirmed_head (\<not> current_slot st + 1 < ci_current_slot ci) st2 ci c
            (n_slot new_head) = Some (r, st')"
          using assms True Inr w c by (simp add: update_confirmed_head_def Let_def)
        from record_confirmed_head_result [OF this] show ?thesis
          using True f2 by (auto split: sum.splits)
      qed
    qed
  qed
qed


section \<open>Committee weight over ranges that cover an epoch\<close>

text \<open>
  C3. A slot range that contains every slot of some epoch \<open>k\<close> (the slots from
  \<open>k * SLOTS_PER_EPOCH\<close> to \<open>(k + 1) * SLOTS_PER_EPOCH - 1\<close>) has committee weight exactly the
  total active balance, with no adjustment; so has every range that passes the coverage test
  of the source, and in particular every single full epoch \<open>j\<close>.
\<close>

theorem committee_weight_full_epoch:
  "(start_slot \<le> k * SLOTS_PER_EPOCH \<and> (k + 1) * SLOTS_PER_EPOCH - 1 \<le> end_slot
      \<longrightarrow> get_committee_weight_between_slots ci start_slot end_slot = get_total_active_balance ci)
   \<and> (is_full_validator_set_covered start_slot end_slot
      \<longrightarrow> get_committee_weight_between_slots ci start_slot end_slot = get_total_active_balance ci)
   \<and> get_committee_weight_between_slots ci (j * SLOTS_PER_EPOCH) ((j + 1) * SLOTS_PER_EPOCH - 1)
       = get_total_active_balance ci"
proof -
  have cover: "get_committee_weight_between_slots ci s e = get_total_active_balance ci"
    if "s \<le> i * SLOTS_PER_EPOCH" "(i + 1) * SLOTS_PER_EPOCH - 1 \<le> e" for s e i
  proof -
    have "s \<le> i * 32" "i * 32 + 31 \<le> e"
      using that by (simp_all add: SLOTS_PER_EPOCH_def algebra_simps)
    then have "is_full_validator_set_covered s e" unfolding covered_iff by blast
    then show ?thesis by (rule committee_weight_of_covered)
  qed
  have "get_committee_weight_between_slots ci (j * SLOTS_PER_EPOCH) ((j + 1) * SLOTS_PER_EPOCH - 1)
       = get_total_active_balance ci"
    by (rule cover [of _ j]) simp_all
  then show ?thesis using cover committee_weight_of_covered by blast
qed

theorem committee_weight_full_epoch_witness:
  "(30 \<le> 1 * SLOTS_PER_EPOCH \<and> (1 + 1) * SLOTS_PER_EPOCH - 1 \<le> 70)
   \<and> is_full_validator_set_covered 30 70
   \<and> get_committee_weight_between_slots snapshot_no_nodes 30 70
       = get_total_active_balance snapshot_no_nodes
   \<and> get_committee_weight_between_slots snapshot_no_nodes (2 * SLOTS_PER_EPOCH)
        ((2 + 1) * SLOTS_PER_EPOCH - 1) = get_total_active_balance snapshot_no_nodes"
proof -
  have h1: "30 \<le> 1 * SLOTS_PER_EPOCH \<and> (1 + 1) * SLOTS_PER_EPOCH - 1 \<le> 70"
    by (simp add: SLOTS_PER_EPOCH_def)
  have h2: "is_full_validator_set_covered 30 70"
    by (simp add: is_full_validator_set_covered_def compute_epoch_at_slot_def SLOTS_PER_EPOCH_def)
  show ?thesis
    using h1 h2 committee_weight_full_epoch [of 30 1 70 snapshot_no_nodes 2] by blast
qed


text \<open>
  A range that crosses an epoch boundary with as many slots as an epoch has, but is not
  aligned to an epoch, contains no full epoch: slots 1 to 32 get the adjusted estimate,
  not the total active balance.
\<close>

lemma committee_weight_crossing_range:
  "\<not> is_full_validator_set_covered 1 32
   \<and> get_committee_weight_between_slots snapshot_no_nodes 1 32 = 997965000000
   \<and> get_total_active_balance snapshot_no_nodes = 1024000000000"
  by code_simp


section \<open>Committee weight as the end slot grows\<close>





section \<open>The one-LMD comparison\<close>





section \<open>The FFG comparison\<close>




section \<open>Integer and fractional quantities\<close>






section \<open>The ordering check\<close>

text \<open>
  C6. A snapshot whose slot is below the engine's current slot makes
  \<^verbatim>\<open>update_confirmed_head\<close> raise at its first \<^verbatim>\<open>assert\<close>, with the engine exactly as it
  was (all its fields); a snapshot whose slot is not below it never makes that
  \<^verbatim>\<open>assert\<close> fail.
\<close>

theorem ordering_violation:
  "(ci_current_slot ci < current_slot st
      \<longrightarrow> update_confirmed_head st ci = Some (Inl OrderingAssertion, st))
   \<and> (current_slot st \<le> ci_current_slot ci
      \<longrightarrow> update_confirmed_head st ci \<noteq> Some (Inl OrderingAssertion, st'))"
proof (intro conjI impI)
  assume "ci_current_slot ci < current_slot st"
  then show "update_confirmed_head st ci = Some (Inl OrderingAssertion, st)"
    by (simp add: update_confirmed_head_def)
next
  assume le: "current_slot st \<le> ci_current_slot ci"
  show "update_confirmed_head st ci \<noteq> Some (Inl OrderingAssertion, st')"
  proof
    assume "update_confirmed_head st ci = Some (Inl OrderingAssertion, st')"
    from update_confirmed_head_result [OF this] le show False by auto
  qed
qed

theorem ordering_violation_witness:
  "(ci_current_slot snapshot_slot_5 < current_slot engine_at_slot_76
      \<and> update_confirmed_head engine_at_slot_76 snapshot_slot_5
          = Some (Inl OrderingAssertion, engine_at_slot_76))
   \<and> (current_slot engine_at_slot_76 \<le> ci_current_slot snapshot_slot_77
      \<and> update_confirmed_head engine_at_slot_76 snapshot_slot_77
          \<noteq> Some (Inl OrderingAssertion, engine_at_slot_76))"
proof -
  have h1: "ci_current_slot snapshot_slot_5 < current_slot engine_at_slot_76" by code_simp
  have h2: "current_slot engine_at_slot_76 \<le> ci_current_slot snapshot_slot_77" by code_simp
  show ?thesis
    using h1 h2 ordering_violation [of snapshot_slot_5 engine_at_slot_76]
      ordering_violation [of snapshot_slot_77 engine_at_slot_76 engine_at_slot_76]
    by blast
qed



section \<open>The epoch assertion of the FFG check\<close>

text \<open>
  C10. The \<^verbatim>\<open>assert block_epoch == current_epoch\<close> of \<^verbatim>\<open>__is_ffg_confirmed\<close> cannot fail
  on the public path: neither \<^verbatim>\<open>__is_confirmed\<close>, which calls the check only in its
  branch for blocks of the current epoch, nor the search for the confirmed head, nor
  \<^verbatim>\<open>update_confirmed_head\<close> ever raises it.
\<close>

theorem epoch_assertion_unreachable:
  "is_confirmed st ci block_root \<noteq> Some (Inl EpochAssertion, st')
   \<and> find_confirmed_block_head st ci block_root \<noteq> Some (Inl EpochAssertion, st')
   \<and> update_confirmed_head st ci \<noteq> Some (Inl EpochAssertion, st')"
proof (intro conjI notI)
  assume "is_confirmed st ci block_root = Some (Inl EpochAssertion, st')"
  from is_confirmed_Inl [OF this] show False by simp
next
  assume "find_confirmed_block_head st ci block_root = Some (Inl EpochAssertion, st')"
  from find_confirmed_block_head_result [OF this] show False by simp
next
  assume "update_confirmed_head st ci = Some (Inl EpochAssertion, st')"
  from update_confirmed_head_result [OF this] show False by auto
qed

text \<open>
  Called directly on the block \<open>g\<close> of epoch 1 while the engine is in epoch 2, the check
  does raise; through the public path it does not.
\<close>

theorem epoch_assertion_unreachable_witness:
  "is_ffg_confirmed engine_at_slot_77 snapshot_slot_77 ''g''
     = Some (Inl EpochAssertion, engine_at_slot_77)
   \<and> is_confirmed engine_at_slot_77 snapshot_slot_77 ''g''
       \<noteq> Some (Inl EpochAssertion, engine_at_slot_77)
   \<and> find_confirmed_block_head engine_at_slot_77 snapshot_slot_77 ''g''
       \<noteq> Some (Inl EpochAssertion, engine_at_slot_77)
   \<and> update_confirmed_head engine_at_slot_77 snapshot_slot_77
       \<noteq> Some (Inl EpochAssertion, engine_at_slot_77)"
proof -
  have "is_ffg_confirmed engine_at_slot_77 snapshot_slot_77 ''g''
     = Some (Inl EpochAssertion, engine_at_slot_77)"
    by code_simp
  then show ?thesis
    using epoch_assertion_unreachable [of engine_at_slot_77 snapshot_slot_77 "''g''" engine_at_slot_77]
    by blast
qed



section \<open>The confirmed head slot never decreases\<close>

lemma execute_rule_append:
  "execute_rule st (xs @ ys) = Some (Inr (), st'') \<Longrightarrow>
     \<exists>st'. execute_rule st xs = Some (Inr (), st') \<and> execute_rule st' ys = Some (Inr (), st'')"
  by (induct xs arbitrary: st) (auto split: option.splits sum.splits prod.splits)

lemma execute_rule_mono:
  "execute_rule st xs = Some (Inr (), st') \<Longrightarrow> confirmed_head_slot st \<le> confirmed_head_slot st'"
proof (induct xs arbitrary: st)
  case Nil
  then show ?case by simp
next
  case (Cons ci xs)
  from Cons.prems obtain st1 where
    u: "update_confirmed_head st ci = Some (Inr (), st1)" and r: "execute_rule st1 xs = Some (Inr (), st')"
    by (auto split: option.splits sum.splits prod.splits)
  from update_confirmed_head_result [OF u] have "confirmed_head_slot st \<le> confirmed_head_slot st1" by auto
  with Cons.hyps [OF r] show ?case by simp
qed

text \<open>
  C7. A successful \<^verbatim>\<open>update_confirmed_head\<close> never lowers \<open>confirmed_head_slot\<close>, so along
  a successful run over a sequence of snapshots the slot after any prefix lies between the
  initial and the final one. When the search returns a block whose slot is below the stored
  confirmed head slot, the call succeeds, keeps the stored slot and root, records no
  confirmation time, and logs the one warning.
\<close>

theorem confirmed_head_slot_never_decreases:
  "(update_confirmed_head st ci = Some (Inr (), st')
      \<longrightarrow> confirmed_head_slot st \<le> confirmed_head_slot st')
   \<and> (execute_rule st (snapshots @ later) = Some (Inr (), st'')
      \<longrightarrow> (\<exists>st1. execute_rule st snapshots = Some (Inr (), st1)
            \<and> confirmed_head_slot st \<le> confirmed_head_slot st1
            \<and> confirmed_head_slot st1 \<le> confirmed_head_slot st''))
   \<and> (current_slot st \<le> ci_current_slot ci
        \<and> find_head_root ci = Inr head_root
        \<and> find_confirmed_block_head (enter_slot st ci) ci head_root = Some (Inr new_head_root, st2)
        \<and> map_of (ci_nodes ci) new_head_root = Some new_head
        \<and> n_slot new_head < confirmed_head_slot st
      \<longrightarrow> (\<exists>st3. update_confirmed_head st ci = Some (Inr (), st3)
            \<and> confirmed_head_slot st3 = confirmed_head_slot st
            \<and> confirmed_head_root st3 = confirmed_head_root st
            \<and> conf_times st3 = conf_times st
            \<and> logged st3 = logged st @
                 [ConfirmationHeadGoesBackwards (confirmed_head_slot st) (n_slot new_head)]))"
proof (intro conjI impI)
  assume "update_confirmed_head st ci = Some (Inr (), st')"
  from update_confirmed_head_result [OF this]
  show "confirmed_head_slot st \<le> confirmed_head_slot st'" by auto
next
  assume "execute_rule st (snapshots @ later) = Some (Inr (), st'')"
  from execute_rule_append [OF this] obtain st1 where
    "execute_rule st snapshots = Some (Inr (), st1)" "execute_rule st1 later = Some (Inr (), st'')"
    by blast
  then show "\<exists>st1. execute_rule st snapshots = Some (Inr (), st1)
            \<and> confirmed_head_slot st \<le> confirmed_head_slot st1
            \<and> confirmed_head_slot st1 \<le> confirmed_head_slot st''"
    using execute_rule_mono by blast
next
  assume a: "current_slot st \<le> ci_current_slot ci
        \<and> find_head_root ci = Inr head_root
        \<and> find_confirmed_block_head (enter_slot st ci) ci head_root = Some (Inr new_head_root, st2)
        \<and> map_of (ci_nodes ci) new_head_root = Some new_head
        \<and> n_slot new_head < confirmed_head_slot st"
  then have w: "find_confirmed_block_head (enter_slot st ci) ci head_root = Some (Inr new_head_root, st2)"
    by simp
  note fr = find_confirmed_block_head_frame [OF w]
  have f2: "confirmed_head_slot st2 = confirmed_head_slot st"
    "confirmed_head_root st2 = confirmed_head_root st"
    "conf_times st2 = conf_times st" "logged st2 = logged st"
    using arg_cong [OF fr, of confirmed_head_slot] arg_cong [OF fr, of confirmed_head_root]
      arg_cong [OF fr, of conf_times] arg_cong [OF fr, of logged]
    by (simp_all add: enter_slot_def)
  show "\<exists>st3. update_confirmed_head st ci = Some (Inr (), st3)
            \<and> confirmed_head_slot st3 = confirmed_head_slot st
            \<and> confirmed_head_root st3 = confirmed_head_root st
            \<and> conf_times st3 = conf_times st
            \<and> logged st3 = logged st @
                 [ConfirmationHeadGoesBackwards (confirmed_head_slot st) (n_slot new_head)]"
    using a f2
    by (simp add: update_confirmed_head_def Let_def record_confirmed_head_def
        append_time_from_confirmed_head_def)
qed

theorem confirmed_head_slot_never_decreases_witness:
  "(update_confirmed_head engine_at_slot_76 snapshot_slot_77 = Some (Inr (), engine_after_slot_77)
      \<and> confirmed_head_slot engine_at_slot_76 \<le> confirmed_head_slot engine_after_slot_77)
   \<and> (execute_rule engine_at_slot_76 ([snapshot_slot_77] @ [snapshot_slot_77])
        = Some (Inr (), engine_after_duplicate)
      \<and> (\<exists>st1. execute_rule engine_at_slot_76 [snapshot_slot_77] = Some (Inr (), st1)
            \<and> confirmed_head_slot engine_at_slot_76 \<le> confirmed_head_slot st1
            \<and> confirmed_head_slot st1 \<le> confirmed_head_slot engine_after_duplicate))
   \<and> ((current_slot engine_ahead \<le> ci_current_slot snapshot_slot_77
        \<and> find_head_root snapshot_slot_77 = Inr ''b''
        \<and> find_confirmed_block_head (enter_slot engine_ahead snapshot_slot_77) snapshot_slot_77 ''b''
            = Some (Inr ''g'', enter_slot engine_ahead snapshot_slot_77)
        \<and> map_of (ci_nodes snapshot_slot_77) ''g'' = Some (snd (example_node ''g'' 32 ''z'' 900000000000))
        \<and> n_slot (snd (example_node ''g'' 32 ''z'' 900000000000)) < confirmed_head_slot engine_ahead)
      \<and> (\<exists>st3. update_confirmed_head engine_ahead snapshot_slot_77 = Some (Inr (), st3)
            \<and> confirmed_head_slot st3 = confirmed_head_slot engine_ahead
            \<and> confirmed_head_root st3 = confirmed_head_root engine_ahead
            \<and> conf_times st3 = conf_times engine_ahead
            \<and> logged st3 = logged engine_ahead @
                 [ConfirmationHeadGoesBackwards (confirmed_head_slot engine_ahead)
                    (n_slot (snd (example_node ''g'' 32 ''z'' 900000000000)))]))"
proof -
  have h1: "update_confirmed_head engine_at_slot_76 snapshot_slot_77 = Some (Inr (), engine_after_slot_77)"
    by code_simp
  have h2: "execute_rule engine_at_slot_76 ([snapshot_slot_77] @ [snapshot_slot_77])
        = Some (Inr (), engine_after_duplicate)"
    by code_simp
  have h3: "current_slot engine_ahead \<le> ci_current_slot snapshot_slot_77
        \<and> find_head_root snapshot_slot_77 = Inr ''b''
        \<and> find_confirmed_block_head (enter_slot engine_ahead snapshot_slot_77) snapshot_slot_77 ''b''
            = Some (Inr ''g'', enter_slot engine_ahead snapshot_slot_77)
        \<and> map_of (ci_nodes snapshot_slot_77) ''g'' = Some (snd (example_node ''g'' 32 ''z'' 900000000000))
        \<and> n_slot (snd (example_node ''g'' 32 ''z'' 900000000000)) < confirmed_head_slot engine_ahead"
    by code_simp
  show ?thesis
    using h1 h2 h3
      confirmed_head_slot_never_decreases [of engine_at_slot_76 snapshot_slot_77 engine_after_slot_77
        "[snapshot_slot_77]" "[snapshot_slot_77]" engine_after_duplicate]
      confirmed_head_slot_never_decreases [of engine_ahead snapshot_slot_77 _ _ _ _ "''b''" "''g''"
        "enter_slot engine_ahead snapshot_slot_77" "snd (example_node ''g'' 32 ''z'' 900000000000)"]
    by blast
qed


section \<open>Confirmation times and gaps\<close>

lemma conf_times_loop_chain:
  assumes "parent_chain ci cur_root visited old_root"
    and "\<forall>n \<in> set visited. old_slot < n_slot n"
  shows "conf_times_loop st ci old_slot (Some old_root) cur_root pre_slot acc
     = Some (Inr (last (pre_slot # map n_slot visited), acc @ map (conf_time_of st) visited),
             st\<lparr>empty_or_forked_slots :=
                  empty_or_forked_slots st @ gaps_between pre_slot (map n_slot visited)\<rparr>)"
  using assms
proof (induct visited arbitrary: st cur_root pre_slot acc)
  case Nil
  then show ?case by (subst conf_times_loop.simps) simp
next
  case (Cons n ns)
  define st1 where "st1 = st\<lparr>empty_or_forked_slots :=
      empty_or_forked_slots st @ [n_slot n + 1..pre_slot - 1]\<rparr>"
  have st1: "(if pre_slot - n_slot n > 1
              then foldl deal_with_empty_or_forked_slot st [n_slot n + 1..pre_slot - 1]
              else st) = st1"
    by (simp add: st1_def foldl_deal)
  have rd: "current_slot st1 = current_slot st" "time_in_current_slot st1 = time_in_current_slot st"
    by (simp_all add: st1_def)
  from Cons.prems have c: "cur_root \<noteq> old_root" "map_of (ci_nodes ci) cur_root = Some n"
    "parent_chain ci (n_parent_root n) ns old_root" "old_slot < n_slot n"
    "\<forall>n \<in> set ns. old_slot < n_slot n"
    by simp_all
  have "conf_times_loop st ci old_slot (Some old_root) cur_root pre_slot acc
      = conf_times_loop st1 ci old_slot (Some old_root) (n_parent_root n) (n_slot n)
          (acc @ [conf_time_of st n])"
    using c(1,2,4) by (subst conf_times_loop.simps) (simp add: Let_def st1 rd conf_time_of_def)
  also have "\<dots> = Some (Inr (last (n_slot n # map n_slot ns),
         (acc @ [conf_time_of st n]) @ map (conf_time_of st1) ns),
       st1\<lparr>empty_or_forked_slots :=
            empty_or_forked_slots st1 @ gaps_between (n_slot n) (map n_slot ns)\<rparr>)"
    by (rule Cons.hyps [OF c(3) c(5)])
  also have "map (conf_time_of st1) ns = map (conf_time_of st) ns"
    by (simp add: conf_time_of_def rd)
  finally show ?case by (simp add: st1_def)
qed

lemma gaps_between_append:
  "gaps_between pre_slot (slots @ [old_slot])
     = gaps_between pre_slot slots @ [old_slot + 1..last (pre_slot # slots) - 1]"
  by (induct slots arbitrary: pre_slot) simp_all

lemma set_gap: "set [c + 1..p - 1] = {c<..<p}" for c p :: int
  by (simp only: set_upto) auto

lemma interval_step:
  fixes l c p :: int
  assumes "l \<le> c" "c < p" "\<forall>x \<in> R. x < c"
  shows "{c<..<p} \<union> ({l<..<c} - R) = {l<..<p} - insert c R"
proof (rule set_eqI)
  fix x
  show "(x \<in> {c<..<p} \<union> ({l<..<c} - R)) = (x \<in> {l<..<p} - insert c R)"
  proof (cases "x \<in> R")
    case True
    then have "x < c" using assms(3) by blast
    then show ?thesis using True by simp
  next
    case False
    then show ?thesis using assms(1,2) by (simp only: Un_iff Diff_iff insert_iff greaterThanLessThan_iff) auto
  qed
qed

lemma gaps_between_set:
  "sorted_wrt (>) (pre_slot # slots) \<Longrightarrow>
     set (gaps_between pre_slot slots) = {last (pre_slot # slots)<..<pre_slot} - set slots
     \<and> distinct (gaps_between pre_slot slots)"
proof (induct slots arbitrary: pre_slot)
  case Nil
  then show ?case by simp
next
  case (Cons c rest)
  then have s: "sorted_wrt (>) (c # rest)" and lt: "c < pre_slot" and all: "\<forall>x \<in> set rest. x < c"
    by auto
  define l where "l = last (c # rest)"
  from Cons.hyps [OF s] have
    ih: "set (gaps_between c rest) = {l<..<c} - set rest"
      "distinct (gaps_between c rest)" by (simp_all add: l_def)
  have lastle: "l \<le> c" unfolding l_def using all by (cases rest) (auto simp: less_imp_le)
  have l2: "last (pre_slot # c # rest) = l" by (simp add: l_def)
  have "set (gaps_between pre_slot (c # rest)) = {c<..<pre_slot} \<union> ({l<..<c} - set rest)"
    by (simp only: gaps_between.simps set_append set_gap ih(1))
  also have "\<dots> = {l<..<pre_slot} - insert c (set rest)"
    using lastle lt all by (rule interval_step)
  finally have 1: "set (gaps_between pre_slot (c # rest))
      = {last (pre_slot # c # rest)<..<pre_slot} - set (c # rest)" by (simp only: l2 list.set)
  have "set [c + 1..pre_slot - 1] \<inter> set (gaps_between c rest) = {}"
    unfolding set_gap ih(1) by auto
  then have 2: "distinct (gaps_between pre_slot (c # rest))"
    using ih(2) by (simp only: gaps_between.simps distinct_append distinct_upto simp_thms)
  show ?case using 1 2 by blast
qed

text \<open>
  C8. Let the engine's confirmed head be \<open>old_root\<close>, and let the parent chain from the new
  head visit the nodes \<open>visited\<close> (at least one) before it arrives at \<open>old_root\<close>, with slots
  strictly decreasing along the chain and all above the old confirmed slot. Then
  \<^verbatim>\<open>__compute_conf_times\<close> returns one confirmation time per visited node, namely
  \<open>(current_slot - slot) * SLOT_LEN + time_in_current_slot\<close>, and appends to
  \<open>empty_or_forked_slots\<close> the gaps of the walk: each slot at most once, and exactly the
  slots strictly between the old and the new confirmed slot that no visited node has.
\<close>

theorem conf_times_and_gaps:
  assumes "confirmed_head_root st = Some old_root"
    and "parent_chain ci new_head_root visited old_root"
    and "visited \<noteq> []"
    and "sorted_wrt (>) (map n_slot visited @ [confirmed_head_slot st])"
  shows "compute_conf_times st new_head_root ci
       = Some (Inr (map (\<lambda>n. (current_slot st - n_slot n) * SLOT_LEN + time_in_current_slot st) visited),
               st\<lparr>empty_or_forked_slots := empty_or_forked_slots st
                    @ gaps_between (n_slot (hd visited)) (map n_slot visited @ [confirmed_head_slot st])\<rparr>)
     \<and> distinct (gaps_between (n_slot (hd visited)) (map n_slot visited @ [confirmed_head_slot st]))
     \<and> set (gaps_between (n_slot (hd visited)) (map n_slot visited @ [confirmed_head_slot st]))
         = {confirmed_head_slot st<..<n_slot (hd visited)} - n_slot ` set visited"
proof -
  obtain n ns where v: "visited = n # ns" using assms(3) by (cases visited) auto
  let ?old = "confirmed_head_slot st"
  let ?slots = "map n_slot visited"
  have gt: "\<forall>m \<in> set visited. ?old < n_slot m"
    using assms(4) by (auto simp: sorted_wrt_append)
  have nh: "map_of (ci_nodes ci) new_head_root = Some n" using assms(2) v by simp
  have loop: "conf_times_loop st ci ?old (Some old_root) new_head_root (n_slot n) []
     = Some (Inr (last (n_slot n # ?slots), [] @ map (conf_time_of st) visited),
             st\<lparr>empty_or_forked_slots :=
                  empty_or_forked_slots st @ gaps_between (n_slot n) ?slots\<rparr>)"
    by (rule conf_times_loop_chain [OF assms(2) gt])
  have g: "gaps_between (n_slot n) (?slots @ [?old])
      = gaps_between (n_slot n) ?slots @ [?old + 1..last (n_slot n # ?slots) - 1]"
    by (rule gaps_between_append)
  have 1: "compute_conf_times st new_head_root ci
       = Some (Inr (map (conf_time_of st) visited),
               st\<lparr>empty_or_forked_slots := empty_or_forked_slots st
                    @ gaps_between (n_slot n) (?slots @ [?old])\<rparr>)"
    unfolding compute_conf_times_def Let_def using nh loop assms(1) g
    by (simp add: foldl_deal)
  have sw: "sorted_wrt (>) (n_slot n # map n_slot ns @ [?old])" using assms(4) v by simp
  have "gaps_between (n_slot n) (?slots @ [?old]) = gaps_between (n_slot n) (map n_slot ns @ [?old])"
    using v by simp
  moreover from gaps_between_set [OF sw] have
    "set (gaps_between (n_slot n) (map n_slot ns @ [?old]))
       = {?old<..<n_slot n} - set (map n_slot ns @ [?old])"
    "distinct (gaps_between (n_slot n) (map n_slot ns @ [?old]))" by simp_all
  ultimately have 2: "distinct (gaps_between (n_slot n) (?slots @ [?old]))"
    and 3: "set (gaps_between (n_slot n) (?slots @ [?old])) = {?old<..<n_slot n} - n_slot ` set visited"
    using v by auto
  show ?thesis using 1 2 3 v by (simp add: conf_time_of_def [abs_def])
qed

text \<open>
  The jump from slot 10 to slot 13: one sample, for slot 13, and the slots 11 and 12 in the
  list of empty or forked slots.
\<close>

theorem conf_times_and_gaps_witness:
  "(confirmed_head_root engine_at_slot_13 = Some ''p''
    \<and> parent_chain snapshot_slot_13 ''q'' [snd (example_node ''q'' 13 ''p'' 90000000000)] ''p''
    \<and> [snd (example_node ''q'' 13 ''p'' 90000000000)] \<noteq> []
    \<and> sorted_wrt (>) (map n_slot [snd (example_node ''q'' 13 ''p'' 90000000000)]
          @ [confirmed_head_slot engine_at_slot_13]))
   \<and> compute_conf_times engine_at_slot_13 ''q'' snapshot_slot_13
       = Some (Inr [4], engine_at_slot_13\<lparr>empty_or_forked_slots := [11, 12]\<rparr>)
   \<and> gaps_between 13 [13, 10] = [11, 12]"
proof -
  let ?q = "snd (example_node ''q'' 13 ''p'' 90000000000)"
  have h1: "confirmed_head_root engine_at_slot_13 = Some ''p''" by code_simp
  have h2: "parent_chain snapshot_slot_13 ''q'' [?q] ''p''" by code_simp
  have h3: "[?q] \<noteq> []" by simp
  have h4: "sorted_wrt (>) (map n_slot [?q] @ [confirmed_head_slot engine_at_slot_13])" by code_simp
  have v1: "map (\<lambda>n. (current_slot engine_at_slot_13 - n_slot n) * SLOT_LEN
                  + time_in_current_slot engine_at_slot_13) [?q] = [4]"
    by code_simp
  have v2: "gaps_between (n_slot (hd [?q])) (map n_slot [?q] @ [confirmed_head_slot engine_at_slot_13])
      = [11, 12]"
    by code_simp
  have v3: "gaps_between 13 [13, 10] = [11, 12]" by code_simp
  have v4: "empty_or_forked_slots engine_at_slot_13 @ [11, 12] = [11, 12]" by code_simp
  from conf_times_and_gaps [OF h1 h2 h3 h4]
  have "compute_conf_times engine_at_slot_13 ''q'' snapshot_slot_13
       = Some (Inr [4], engine_at_slot_13\<lparr>empty_or_forked_slots := [11, 12]\<rparr>)"
    by (simp only: v1 v2 v4)
  then show ?thesis using h1 h2 h3 h4 v3 by blast
qed


section \<open>The same snapshot twice\<close>

lemma find_confirmed_block_head_walk_aux:
  "find_confirmed_block_head st ci block_root = Some res \<Longrightarrow>
     (case res of
        (Inl e, st') \<Rightarrow> True
      | (Inr c, st') \<Rightarrow> (\<exists>path. confirmed_walk st ci block_root path c st'))"
proof (erule find_confirmed_block_head.raw_induct
    [rotated, where P = "\<lambda>st ci block_root res. case res of
        (Inl e, st') \<Rightarrow> True
      | (Inr c, st') \<Rightarrow> (\<exists>path. confirmed_walk st ci block_root path c st')"])
  fix find_confirmed_block_head st ci block_root res
  assume ih: "\<And>s c b y. find_confirmed_block_head s c b = Some y \<Longrightarrow>
       (case y of
        (Inl e, st') \<Rightarrow> True
      | (Inr r, st') \<Rightarrow> (\<exists>path. confirmed_walk s c b path r st'))"
    and step: "(case is_confirmed st ci block_root of
        None \<Rightarrow> None
      | Some (r, st') \<Rightarrow>
          (case r of
             Inl e \<Rightarrow> Some (Inl e, st')
           | Inr confirmed \<Rightarrow>
               if confirmed then Some (Inr block_root, st')
               else (case map_of (ci_nodes ci) block_root of
                       None \<Rightarrow> Some (Inl KeyError, st')
                     | Some node \<Rightarrow> find_confirmed_block_head st' ci (n_parent_root node)))) = Some res"
  from step obtain r st1 where ic: "is_confirmed st ci block_root = Some (r, st1)"
    by (cases "is_confirmed st ci block_root") auto
  show "case res of
        (Inl e, st') \<Rightarrow> True
      | (Inr c, st') \<Rightarrow> (\<exists>path. confirmed_walk st ci block_root path c st')"
  proof (cases r)
    case (Inl e)
    then show ?thesis using step ic by auto
  next
    case (Inr confirmed)
    show ?thesis
    proof (cases confirmed)
      case True
      then have "res = (Inr block_root, st1)" using step ic Inr by simp
      moreover have "confirmed_walk st ci block_root [] block_root st1"
        using ic Inr True by simp
      then have "\<exists>path. confirmed_walk st ci block_root path block_root st1" ..
      ultimately show ?thesis by simp
    next
      case False
      then have f: "is_confirmed st ci block_root = Some (Inr False, st1)" using ic Inr by simp
      from is_confirmed_False [OF f] obtain block where
        b: "st1 = st" "map_of (ci_nodes ci) block_root = Some block" by blast
      have rec: "find_confirmed_block_head st ci (n_parent_root block) = Some res"
        using step f b by simp
      show ?thesis
      proof (cases res)
        case (Pair rr st')
        show ?thesis
        proof (cases rr)
          case (Inl e)
          then show ?thesis using Pair by simp
        next
          case c: (Inr c)
          from ih [OF rec] Pair c obtain path where
            "confirmed_walk st ci (n_parent_root block) path c st'" by auto
          then have "confirmed_walk st ci block_root (block # path) c st'"
            using f b by simp
          then have "\<exists>path. confirmed_walk st ci block_root path c st'" ..
          then show ?thesis using Pair c by simp
        qed
      qed
    qed
  qed
qed

lemma find_confirmed_block_head_walk:
  assumes "find_confirmed_block_head st ci block_root = Some (Inr c, st')"
  obtains path where "confirmed_walk st ci block_root path c st'"
  using find_confirmed_block_head_walk_aux [OF assms] by auto

lemma walk_find_confirmed_block_head:
  "confirmed_walk st ci r path c st' \<Longrightarrow> find_confirmed_block_head st ci r = Some (Inr c, st')"
proof (induct path arbitrary: r)
  case Nil
  then have "r = c" "is_confirmed st ci r = Some (Inr True, st')" by auto
  then show ?case by (subst find_confirmed_block_head.simps) simp
next
  case (Cons n ns)
  then have "find_confirmed_block_head st ci (n_parent_root n) = Some (Inr c, st')"
    and "is_confirmed st ci r = Some (Inr False, st)" "map_of (ci_nodes ci) r = Some n"
    by auto
  then show ?case by (subst find_confirmed_block_head.simps) simp
qed

lemma walk_end:
  "confirmed_walk st ci r path c st' \<Longrightarrow> is_confirmed st ci c = Some (Inr True, st')"
  by (induct path arbitrary: r) auto


text \<open>The checks read the engine only through a few fields.\<close>

lemma same_reads_sym: "same_reads st sa \<Longrightarrow> same_reads sa st"
  by (simp add: same_reads_def)

lemma is_one_lmd_confirmed_reads:
  assumes "same_reads st sa"
  shows "is_one_lmd_confirmed sa ci b = is_one_lmd_confirmed st ci b"
proof -
  have sides: "one_lmd_sides sa ci w m = one_lmd_sides st ci w m" for w m
    using assms by (simp add: same_reads_def one_lmd_sides_def)
  have cur: "current_slot sa = current_slot st" using assms by (simp add: same_reads_def)
  show ?thesis unfolding is_one_lmd_confirmed_def sides cur ..
qed

lemma is_lmd_confirmed_reads_aux:
  "is_lmd_confirmed st ci block_root = Some r \<Longrightarrow>
     (\<forall>sa. same_reads st sa \<and> confirmed_head_root sa = confirmed_head_root st
         \<longrightarrow> is_lmd_confirmed sa ci block_root = Some r)"
proof (erule is_lmd_confirmed.raw_induct
    [rotated, where P = "\<lambda>st ci block_root r.
       \<forall>sa. same_reads st sa \<and> confirmed_head_root sa = confirmed_head_root st
         \<longrightarrow> is_lmd_confirmed sa ci block_root = Some r"])
  fix is_lmd_confirmed' st ci block_root r
  assume ih: "\<And>s c b y. is_lmd_confirmed' s c b = Some y \<Longrightarrow>
       \<forall>sa. same_reads s sa \<and> confirmed_head_root sa = confirmed_head_root s
         \<longrightarrow> is_lmd_confirmed sa c b = Some y"
    and step: "(case map_of (ci_nodes ci) block_root of
        None \<Rightarrow> Some (Inl KeyError)
      | Some node \<Rightarrow>
          if ci_finalized_checkpoint_root ci = block_root
             \<or> confirmed_head_root st = Some block_root
          then Some (Inr True)
          else (case is_one_lmd_confirmed st ci block_root of
                  Inl e \<Rightarrow> Some (Inl e)
                | Inr one_confirmed \<Rightarrow>
                    if one_confirmed then is_lmd_confirmed' st ci (n_parent_root node)
                    else Some (Inr False))) = Some r"
  show "\<forall>sa. same_reads st sa \<and> confirmed_head_root sa = confirmed_head_root st
         \<longrightarrow> is_lmd_confirmed sa ci block_root = Some r"
  proof (intro allI impI)
    fix sa
    assume a: "same_reads st sa \<and> confirmed_head_root sa = confirmed_head_root st"
    then have one: "is_one_lmd_confirmed sa ci block_root = is_one_lmd_confirmed st ci block_root"
      by (simp add: is_one_lmd_confirmed_reads)
    show "is_lmd_confirmed sa ci block_root = Some r"
      using step a one
      by (subst is_lmd_confirmed.simps)
         (auto split: option.splits sum.splits if_splits dest: ih)
  qed
qed

lemma is_lmd_confirmed_reads:
  assumes "same_reads st sa" "confirmed_head_root sa = confirmed_head_root st"
  shows "is_lmd_confirmed sa ci b = is_lmd_confirmed st ci b"
proof (cases "is_lmd_confirmed st ci b")
  case (Some r)
  then show ?thesis using is_lmd_confirmed_reads_aux [OF Some] assms by simp
next
  case None
  show ?thesis
  proof (cases "is_lmd_confirmed sa ci b")
    case None': None
    then show ?thesis using None by simp
  next
    case (Some r)
    from is_lmd_confirmed_reads_aux [OF Some] assms have "is_lmd_confirmed st ci b = Some r"
      by (simp add: same_reads_def)
    then show ?thesis using None by simp
  qed
qed

lemma is_ffg_confirmed_reads:
  assumes "same_reads st sa" "is_ffg_confirmed st ci b = Some (Inr v, st')"
  shows "\<exists>sa'. is_ffg_confirmed sa ci b = Some (Inr v, sa')"
proof -
  have sides: "ffg_sides sa ci x = ffg_sides st ci x" for x
    using assms(1) by (simp add: same_reads_def ffg_sides_def get_remaining_weight_in_epoch_def)
  show ?thesis
    using assms sides unfolding is_ffg_confirmed_def read_only_def Let_def same_reads_def
    by (auto split: option.splits sum.splits if_splits prod.splits)
qed


lemma is_confirmed_base:
  assumes "map_of (ci_nodes ci) x = Some block"
    and "ci_finalized_checkpoint_root ci = x \<or> confirmed_head_root st = Some x"
  shows "is_confirmed st ci x = Some (Inr True, st)"
  using assms by (simp add: is_confirmed_def Let_def)

lemma is_confirmed_again:
  assumes A: "is_confirmed A ci x = Some (Inr True, A')"
    and reads: "same_reads A B"
    and c: "confirmed_head_root B = confirmed_head_root A"
    and f: "ffg_confirmed_checkpoint B = ffg_confirmed_checkpoint A'"
  shows "\<exists>B'. is_confirmed B ci x = Some (Inr True, B')"
proof -
  have lmd: "is_lmd_confirmed B ci x = is_lmd_confirmed A ci x"
    using reads c by (rule is_lmd_confirmed_reads)
  have cur: "current_slot B = current_slot A" using reads by (simp add: same_reads_def)
  have ffg: "\<exists>s'. is_ffg_confirmed B ci x = Some (Inr True, s')"
    if "is_ffg_confirmed A ci x = Some (Inr True, s)" for s
    using is_ffg_confirmed_reads [OF reads that] .
  show ?thesis
    using A f ffg unfolding is_confirmed_def read_only_def Let_def lmd cur c
    by (auto split: option.splits sum.splits if_splits)
qed

lemma is_confirmed_newly:
  assumes A: "is_confirmed A ci x = Some (Inr False, A1)"
    and reads: "same_reads A B"
    and lmd: "is_lmd_confirmed B ci x = is_lmd_confirmed A ci x"
    and c: "confirmed_head_root B \<noteq> Some x"
  shows "\<exists>b B1 block. is_confirmed B ci x = Some (Inr b, B1)
      \<and> map_of (ci_nodes ci) x = Some block
      \<and> (b \<longrightarrow> ffg_confirmed_checkpoint B \<noteq> ffg_confirmed_checkpoint A
             \<and> compute_epoch_at_slot (n_slot block) = compute_epoch_at_slot (current_slot A) - 1)"
proof -
  have cur: "current_slot B = current_slot A" using reads by (simp add: same_reads_def)
  have ffg: "\<exists>s'. is_ffg_confirmed B ci x = Some (Inr False, s')"
    if "is_ffg_confirmed A ci x = Some (Inr False, s)" for s
    using is_ffg_confirmed_reads [OF reads that] .
  show ?thesis
    using A c ffg unfolding is_confirmed_def read_only_def Let_def lmd cur
    by (auto split: option.splits sum.splits if_splits)
qed


lemma is_confirmed_sets_checkpoint:
  assumes "is_confirmed A ci c = Some (Inr True, A')"
    and "ffg_confirmed_checkpoint A' \<noteq> ffg_confirmed_checkpoint A"
  shows "\<exists>block. map_of (ci_nodes ci) c = Some block
     \<and> compute_epoch_at_slot (n_slot block) = compute_epoch_at_slot (current_slot A)"
  using is_confirmed_True [OF assms(1)] assms(2) by auto

lemma earlier_epoch_lower_slot:
  assumes "compute_epoch_at_slot a = compute_epoch_at_slot cur - 1"
    and "compute_epoch_at_slot b = compute_epoch_at_slot cur"
  shows "a \<le> b"
proof -
  have "a div 32 < b div 32"
    using assms by (simp add: compute_epoch_at_slot_def SLOTS_PER_EPOCH_def)
  then show ?thesis by (metis linorder_not_less order_less_imp_le zdiv_mono1 zero_less_numeral)
qed

lemma walk_lmd_under_new_head:
  "confirmed_walk A ci x path c1 A' \<Longrightarrow> same_reads A B
     \<Longrightarrow> confirmed_head_root B = Some c1
     \<Longrightarrow> is_lmd_confirmed B ci x = is_lmd_confirmed A ci x"
proof (induct path arbitrary: x)
  case Nil
  then have x: "x = c1" and t: "is_confirmed A ci x = Some (Inr True, A')" by auto
  from is_confirmed_True [OF t] obtain block where b: "map_of (ci_nodes ci) x = Some block"
    by blast
  have "is_lmd_confirmed B ci x = Some (Inr True)"
    using b x Nil.prems(3) by (subst is_lmd_confirmed.simps) simp
  then show ?case using is_confirmed_True_lmd [OF t] by simp
next
  case (Cons n ns)
  then have f: "is_confirmed A ci x = Some (Inr False, A)" and b: "map_of (ci_nodes ci) x = Some n"
    and w: "confirmed_walk A ci (n_parent_root n) ns c1 A'" by auto
  from is_confirmed_False [OF f] have nb: "ci_finalized_checkpoint_root ci \<noteq> x"
    "confirmed_head_root A \<noteq> Some x" by auto
  have "x \<noteq> c1" using walk_end [OF w] f by auto
  then have nbB: "confirmed_head_root B \<noteq> Some x" using Cons.prems(3) by simp
  have ih: "is_lmd_confirmed B ci (n_parent_root n) = is_lmd_confirmed A ci (n_parent_root n)"
    using Cons.hyps [OF w Cons.prems(2,3)] .
  have one: "is_one_lmd_confirmed B ci x = is_one_lmd_confirmed A ci x"
    using Cons.prems(2) by (rule is_one_lmd_confirmed_reads)
  have "is_lmd_confirmed B ci x
      = (case is_one_lmd_confirmed A ci x of
           Inl e \<Rightarrow> Some (Inl e)
         | Inr one_confirmed \<Rightarrow>
             if one_confirmed then is_lmd_confirmed A ci (n_parent_root n) else Some (Inr False))"
    using b nb(1) nbB by (subst is_lmd_confirmed.simps) (simp add: one ih split: sum.splits)
  also have "\<dots> = is_lmd_confirmed A ci x"
    using b nb by (subst (2) is_lmd_confirmed.simps) simp
  finally show ?case .
qed

lemma walk_again:
  "confirmed_walk A ci x path c1 A' \<Longrightarrow> same_reads A B
     \<Longrightarrow> ffg_confirmed_checkpoint B = ffg_confirmed_checkpoint A'
     \<Longrightarrow> confirmed_head_root B = confirmed_head_root A \<or> confirmed_head_root B = Some c1
     \<Longrightarrow> \<exists>c2 B' n1 n2. find_confirmed_block_head B ci x = Some (Inr c2, B')
           \<and> map_of (ci_nodes ci) c1 = Some n1 \<and> map_of (ci_nodes ci) c2 = Some n2
           \<and> n_slot n2 \<le> n_slot n1"
proof (induct path arbitrary: x)
  case Nil
  then have x: "x = c1" and t: "is_confirmed A ci x = Some (Inr True, A')" by auto
  from is_confirmed_True [OF t] obtain block where b: "map_of (ci_nodes ci) x = Some block"
    by blast
  have "\<exists>B'. is_confirmed B ci x = Some (Inr True, B')"
  proof (cases "confirmed_head_root B = Some c1")
    case True
    then show ?thesis using is_confirmed_base [OF b, of B] x by blast
  next
    case False
    then have "confirmed_head_root B = confirmed_head_root A" using Nil.prems(4) by simp
    from is_confirmed_again [OF t Nil.prems(2) this Nil.prems(3)] show ?thesis .
  qed
  then obtain B' where "is_confirmed B ci x = Some (Inr True, B')" ..
  then have "find_confirmed_block_head B ci x = Some (Inr x, B')"
    by (subst find_confirmed_block_head.simps) simp
  then show ?case using b x by auto
next
  case (Cons n ns)
  then have f: "is_confirmed A ci x = Some (Inr False, A)" and b: "map_of (ci_nodes ci) x = Some n"
    and w: "confirmed_walk A ci (n_parent_root n) ns c1 A'" by auto
  have wx: "confirmed_walk A ci x (n # ns) c1 A'" using Cons.prems(1) .
  note e = walk_end [OF w]
  from is_confirmed_True [OF e] obtain n1 where n1: "map_of (ci_nodes ci) c1 = Some n1" by blast
  from is_confirmed_False [OF f] have nb: "confirmed_head_root A \<noteq> Some x" by auto
  have ne: "x \<noteq> c1" using e f by auto
  have nbB: "confirmed_head_root B \<noteq> Some x" using Cons.prems(4) nb ne by auto
  have lmd: "is_lmd_confirmed B ci x = is_lmd_confirmed A ci x"
  proof (cases "confirmed_head_root B = Some c1")
    case True
    from walk_lmd_under_new_head [OF wx Cons.prems(2) True] show ?thesis .
  next
    case False
    then have "confirmed_head_root B = confirmed_head_root A" using Cons.prems(4) by simp
    with Cons.prems(2) show ?thesis by (rule is_lmd_confirmed_reads)
  qed
  from is_confirmed_newly [OF f Cons.prems(2) lmd nbB] obtain b' B1 block where
    ib: "is_confirmed B ci x = Some (Inr b', B1)" and bl: "map_of (ci_nodes ci) x = Some block"
    and new: "b' \<longrightarrow> ffg_confirmed_checkpoint B \<noteq> ffg_confirmed_checkpoint A
             \<and> compute_epoch_at_slot (n_slot block) = compute_epoch_at_slot (current_slot A) - 1"
    by blast
  show ?case
  proof (cases b')
    case True
    then have ch: "ffg_confirmed_checkpoint A' \<noteq> ffg_confirmed_checkpoint A"
      and ep: "compute_epoch_at_slot (n_slot block) = compute_epoch_at_slot (current_slot A) - 1"
      using new Cons.prems(3) by auto
    from is_confirmed_sets_checkpoint [OF e ch] n1 have
      "compute_epoch_at_slot (n_slot n1) = compute_epoch_at_slot (current_slot A)" by auto
    with ep have "n_slot block \<le> n_slot n1" by (rule earlier_epoch_lower_slot)
    moreover have "find_confirmed_block_head B ci x = Some (Inr x, B1)"
      using ib True by (subst find_confirmed_block_head.simps) simp
    ultimately show ?thesis using n1 bl by blast
  next
    case False
    then have ibF: "is_confirmed B ci x = Some (Inr False, B1)" using ib by simp
    from is_confirmed_False [OF ibF] have "B1 = B" by simp
    from Cons.hyps [OF w Cons.prems(2,3,4)] obtain c2 B' m1 n2 where
      r: "find_confirmed_block_head B ci (n_parent_root n) = Some (Inr c2, B')"
      "map_of (ci_nodes ci) c1 = Some m1" "map_of (ci_nodes ci) c2 = Some n2" "n_slot n2 \<le> n_slot m1"
      by blast
    have "find_confirmed_block_head B ci x = Some (Inr c2, B')"
      using ibF \<open>B1 = B\<close> b r(1) by (subst find_confirmed_block_head.simps) simp
    then show ?thesis using r(2,3,4) by blast
  qed
qed


lemma update_confirmed_head_parts:
  assumes "update_confirmed_head st ci = Some (Inr (), st1)"
  obtains head_root c1 A' n1 where
    "current_slot st \<le> ci_current_slot ci"
    "find_head_root ci = Inr head_root"
    "find_confirmed_block_head (enter_slot st ci) ci head_root = Some (Inr c1, A')"
    "map_of (ci_nodes ci) c1 = Some n1"
    "record_confirmed_head (\<not> current_slot st + 1 < ci_current_slot ci) A' ci c1 (n_slot n1)
       = Some (Inr (), st1)"
proof -
  have le: "current_slot st \<le> ci_current_slot ci"
    using assms by (auto simp: update_confirmed_head_def split: if_splits)
  from assms le obtain head_root where h: "find_head_root ci = Inr head_root"
    by (cases "find_head_root ci") (auto simp: update_confirmed_head_def Let_def)
  from assms le h obtain rw A' where
    w: "find_confirmed_block_head (enter_slot st ci) ci head_root = Some (rw, A')"
    by (auto simp: update_confirmed_head_def Let_def split: option.splits)
  from assms le h w obtain c1 where c: "rw = Inr c1"
    by (cases rw) (auto simp: update_confirmed_head_def Let_def)
  from assms le h w c obtain n1 where n: "map_of (ci_nodes ci) c1 = Some n1"
    by (cases "map_of (ci_nodes ci) c1") (auto simp: update_confirmed_head_def Let_def)
  have "record_confirmed_head (\<not> current_slot st + 1 < ci_current_slot ci) A' ci c1 (n_slot n1)
       = Some (Inr (), st1)"
    using assms le h w c n by (simp add: update_confirmed_head_def Let_def)
  with le h w c n show ?thesis using that by blast
qed

lemma record_confirmed_head_fields:
  assumes "record_confirmed_head record_conf_time A' ci c1 s1 = Some (Inr (), st1)"
  shows "same_reads A' st1"
    and "ffg_confirmed_checkpoint st1 = ffg_confirmed_checkpoint A'"
    and "processed_slots st1 = processed_slots A'"
    and "s1 \<le> confirmed_head_slot st1"
    and "confirmed_head_root st1 = confirmed_head_root A' \<or> confirmed_head_root st1 = Some c1"
proof -
  have all: "same_reads A' st1
    \<and> ffg_confirmed_checkpoint st1 = ffg_confirmed_checkpoint A'
    \<and> processed_slots st1 = processed_slots A'
    \<and> s1 \<le> confirmed_head_slot st1
    \<and> (confirmed_head_root st1 = confirmed_head_root A' \<or> confirmed_head_root st1 = Some c1)"
  proof (cases "s1 > confirmed_head_slot A' \<and> record_conf_time")
    case False
    then show ?thesis
      using assms unfolding record_confirmed_head_def append_time_from_confirmed_head_def same_reads_def
      by (auto split: if_splits)
  next
    case True
    from assms True obtain r1 s where
      c: "compute_conf_times A' c1 ci = Some (r1, s)"
      unfolding record_confirmed_head_def by (auto split: option.splits)
    note f = anomaly_frame_fields [OF conjunct2 [OF compute_conf_times_effect [OF c]]]
    from assms True c obtain new_times where r1: "r1 = Inr new_times"
      unfolding record_confirmed_head_def by (cases r1) auto
    have "st1 = s\<lparr>conf_times := conf_times s @ new_times,
                  confirmed_head_root := Some c1,
                  confirmed_head_slot := s1,
                  times_from_confirmed_head := times_from_confirmed_head s @
                    [get_time_from_last_confirmed_block
                       (s\<lparr>conf_times := conf_times s @ new_times,
                            confirmed_head_root := Some c1,
                            confirmed_head_slot := s1\<rparr>)]\<rparr>"
      using assms True c r1 unfolding record_confirmed_head_def append_time_from_confirmed_head_def
      by simp
    then show ?thesis using f by (simp add: same_reads_def)
  qed
  show "same_reads A' st1"
    and "ffg_confirmed_checkpoint st1 = ffg_confirmed_checkpoint A'"
    and "processed_slots st1 = processed_slots A'"
    and "s1 \<le> confirmed_head_slot st1"
    and "confirmed_head_root st1 = confirmed_head_root A' \<or> confirmed_head_root st1 = Some c1"
    using all by blast+
qed

lemma record_confirmed_head_no_progress:
  assumes "s2 \<le> confirmed_head_slot B'"
  shows "\<exists>st2. record_confirmed_head record_conf_time B' ci c2 s2 = Some (Inr (), st2)
     \<and> confirmed_head_slot st2 = confirmed_head_slot B'
     \<and> confirmed_head_root st2 = confirmed_head_root B'
     \<and> conf_times st2 = conf_times B'
     \<and> empty_or_forked_slots st2 = empty_or_forked_slots B'
     \<and> processed_slots st2 = processed_slots B'"
  using assms unfolding record_confirmed_head_def append_time_from_confirmed_head_def by simp

text \<open>
  C5. When \<^verbatim>\<open>update_confirmed_head\<close> has succeeded on a snapshot, applying it again to the
  same snapshot succeeds too and changes neither the confirmed head slot or root, nor the
  confirmation times, nor the empty-or-forked slots, nor the set of processed slots and
  its size.
\<close>

theorem duplicate_snapshot_idempotent:
  "update_confirmed_head st ci = Some (Inr (), st1)
     \<longrightarrow> (\<exists>st2. update_confirmed_head st1 ci = Some (Inr (), st2)
           \<and> confirmed_head_slot st2 = confirmed_head_slot st1
           \<and> confirmed_head_root st2 = confirmed_head_root st1
           \<and> get_conf_times st2 = get_conf_times st1
           \<and> get_empty_or_forked_slots st2 = get_empty_or_forked_slots st1
           \<and> processed_slots st2 = processed_slots st1
           \<and> get_num_of_processed_slots st2 = get_num_of_processed_slots st1)"
proof
  assume run1: "update_confirmed_head st ci = Some (Inr (), st1)"
  define A where "A = enter_slot st ci"
  define B where "B = enter_slot st1 ci"
  from run1 obtain head_root c1 A' n1 where
    le: "current_slot st \<le> ci_current_slot ci"
    and h: "find_head_root ci = Inr head_root"
    and w: "find_confirmed_block_head A ci head_root = Some (Inr c1, A')"
    and n1: "map_of (ci_nodes ci) c1 = Some n1"
    and rec: "record_confirmed_head (\<not> current_slot st + 1 < ci_current_slot ci) A' ci c1 (n_slot n1)
       = Some (Inr (), st1)"
    unfolding A_def by (rule update_confirmed_head_parts)
  note fr = find_confirmed_block_head_frame [OF w]
  have A': "same_reads A A'" "confirmed_head_root A' = confirmed_head_root A"
    "processed_slots A' = insert (ci_current_slot ci) (processed_slots st)"
    "current_slot A' = ci_current_slot ci"
    using arg_cong [OF fr, of confirmation_byzantine_threshold]
      arg_cong [OF fr, of confirmation_slashing_threshold]
      arg_cong [OF fr, of current_slot] arg_cong [OF fr, of confirmed_head_root]
      arg_cong [OF fr, of processed_slots]
    by (simp_all add: same_reads_def A_def enter_slot_def)
  note r = record_confirmed_head_fields [OF rec]
  have cur1: "current_slot st1 = ci_current_slot ci"
    using r(1) A'(4) by (simp add: same_reads_def)
  have B: "same_reads A B" "ffg_confirmed_checkpoint B = ffg_confirmed_checkpoint A'"
    "confirmed_head_root B = confirmed_head_root A \<or> confirmed_head_root B = Some c1"
    "confirmed_head_slot B = confirmed_head_slot st1" "conf_times B = conf_times st1"
    "empty_or_forked_slots B = empty_or_forked_slots st1"
    "confirmed_head_root B = confirmed_head_root st1"
    "processed_slots B = processed_slots st1"
    using r A' by (auto simp: same_reads_def A_def B_def enter_slot_def)
  from find_confirmed_block_head_walk [OF w] obtain path where
    walk: "confirmed_walk A ci head_root path c1 A'" .
  from walk_again [OF walk B(1,2,3)] n1 obtain c2 B' n2 where
    w2: "find_confirmed_block_head B ci head_root = Some (Inr c2, B')"
    and n2: "map_of (ci_nodes ci) c2 = Some n2" and sl: "n_slot n2 \<le> n_slot n1"
    by auto
  note fr2 = find_confirmed_block_head_frame [OF w2]
  have B': "confirmed_head_slot B' = confirmed_head_slot st1" "conf_times B' = conf_times st1"
    "empty_or_forked_slots B' = empty_or_forked_slots st1"
    "confirmed_head_root B' = confirmed_head_root st1"
    "processed_slots B' = processed_slots st1"
    using arg_cong [OF fr2, of confirmed_head_slot] arg_cong [OF fr2, of conf_times]
      arg_cong [OF fr2, of empty_or_forked_slots] arg_cong [OF fr2, of confirmed_head_root]
      arg_cong [OF fr2, of processed_slots] B(4-8)
    by simp_all
  have "n_slot n2 \<le> confirmed_head_slot B'" using sl r(4) B'(1) by simp
  from record_confirmed_head_no_progress [OF this, of "\<not> current_slot st1 + 1 < ci_current_slot ci" ci c2]
  obtain st2 where
    rec2: "record_confirmed_head (\<not> current_slot st1 + 1 < ci_current_slot ci) B' ci c2 (n_slot n2)
       = Some (Inr (), st2)"
    and f2: "confirmed_head_slot st2 = confirmed_head_slot B'"
      "confirmed_head_root st2 = confirmed_head_root B'"
      "conf_times st2 = conf_times B'"
      "empty_or_forked_slots st2 = empty_or_forked_slots B'"
      "processed_slots st2 = processed_slots B'"
    by blast
  have "update_confirmed_head st1 ci = Some (Inr (), st2)"
    using cur1 h w2 n2 rec2 by (simp add: update_confirmed_head_def Let_def B_def)
  then show "\<exists>st2. update_confirmed_head st1 ci = Some (Inr (), st2)
           \<and> confirmed_head_slot st2 = confirmed_head_slot st1
           \<and> confirmed_head_root st2 = confirmed_head_root st1
           \<and> get_conf_times st2 = get_conf_times st1
           \<and> get_empty_or_forked_slots st2 = get_empty_or_forked_slots st1
           \<and> processed_slots st2 = processed_slots st1
           \<and> get_num_of_processed_slots st2 = get_num_of_processed_slots st1"
    using f2 B' by (auto simp: get_conf_times_def get_empty_or_forked_slots_def
        get_num_of_processed_slots_def)
qed

text \<open>
  Two instances: the snapshot at slot 77, and the snapshot at slot 95, where the first
  application sets the FFG-confirmed checkpoint.
\<close>

theorem duplicate_snapshot_idempotent_witness:
  "(update_confirmed_head engine_at_slot_76 snapshot_slot_77 = Some (Inr (), engine_after_slot_77)
    \<and> (\<exists>st2. update_confirmed_head engine_after_slot_77 snapshot_slot_77 = Some (Inr (), st2)
           \<and> confirmed_head_slot st2 = confirmed_head_slot engine_after_slot_77
           \<and> confirmed_head_root st2 = confirmed_head_root engine_after_slot_77
           \<and> get_conf_times st2 = get_conf_times engine_after_slot_77
           \<and> get_empty_or_forked_slots st2 = get_empty_or_forked_slots engine_after_slot_77
           \<and> processed_slots st2 = processed_slots engine_after_slot_77
           \<and> get_num_of_processed_slots st2 = get_num_of_processed_slots engine_after_slot_77)
    \<and> update_confirmed_head engine_after_slot_77 snapshot_slot_77
        = Some (Inr (), engine_after_duplicate))
   \<and> (update_confirmed_head engine_at_slot_94 snapshot_slot_95 = Some (Inr (), engine_after_slot_95)
    \<and> (\<exists>st2. update_confirmed_head engine_after_slot_95 snapshot_slot_95 = Some (Inr (), st2)
           \<and> confirmed_head_slot st2 = confirmed_head_slot engine_after_slot_95
           \<and> confirmed_head_root st2 = confirmed_head_root engine_after_slot_95
           \<and> get_conf_times st2 = get_conf_times engine_after_slot_95
           \<and> get_empty_or_forked_slots st2 = get_empty_or_forked_slots engine_after_slot_95
           \<and> processed_slots st2 = processed_slots engine_after_slot_95
           \<and> get_num_of_processed_slots st2 = get_num_of_processed_slots engine_after_slot_95))"
proof -
  have h: "update_confirmed_head engine_at_slot_76 snapshot_slot_77 = Some (Inr (), engine_after_slot_77)"
    by code_simp
  have v: "update_confirmed_head engine_after_slot_77 snapshot_slot_77
       = Some (Inr (), engine_after_duplicate)"
    by code_simp
  have h': "update_confirmed_head engine_at_slot_94 snapshot_slot_95 = Some (Inr (), engine_after_slot_95)"
    by code_simp
  show ?thesis
    using h v h'
      duplicate_snapshot_idempotent [of engine_at_slot_76 snapshot_slot_77 engine_after_slot_77]
      duplicate_snapshot_idempotent [of engine_at_slot_94 snapshot_slot_95 engine_after_slot_95]
    by blast
qed

end
